theory Spec2Isabelle
  imports Main "HOL-Library.AList" "HOL-Library.Sublist"
begin

section \<open>ClawBands: approval queue, arbitrator and interceptor\<close>

text \<open>
  The embedding follows \<^verbatim>\<open>src/core/ApprovalQueue.ts\<close> (the queue and, in the same
  file, the Arbitrator), \<^verbatim>\<open>src/core/Interceptor.ts\<close>, the default policy of
  \<^verbatim>\<open>src/config.ts\<close> and the reply handler of \<^verbatim>\<open>src/plugin/tool-interceptor.ts\<close>.

  Conventions of the model:
  \<^item> \<^verbatim>\<open>Date.now()\<close> is a parameter \<open>now\<close> of every operation; the several reads of
    the clock inside one synchronous call return the same instant. Timestamps and
    durations are integers (milliseconds).
  \<^item> A JavaScript \<^verbatim>\<open>Map\<close> is an association list in insertion order:
    \<^verbatim>\<open>get\<close> is \<open>map_of\<close>, \<^verbatim>\<open>set\<close> is \<open>AList.update\<close> (in place for an existing
    key, appended for a new one), \<^verbatim>\<open>delete\<close> is \<open>AList.delete\<close>.
  \<^item> Mutation of the singleton queue is explicit state passing: an operation takes the
    queue and returns its result together with the new queue.
  \<^item> Logging (\<^verbatim>\<open>logger\<close>, the audit log and the statistics) writes to external sinks
    and never influences a decision; it is not part of the model.
  \<^item> The built-in objects that a property read on a plain object can reach through
    the prototype chain are a parameter of the rule lookup.
\<close>

subsection \<open>Data model\<close>

datatype status = Pending | Approved | Denied

record ApprovalEntry =
  sessionKey :: string
  moduleName :: string
  methodName :: string
  status :: status
  createdAt :: int
  expiresAt :: int

definition DEFAULT_TTL_MS :: int where
  "DEFAULT_TTL_MS = 120000"

definition CONSUME_MAX_AGE_MS :: int where
  "CONSUME_MAX_AGE_MS = 60000"

definition CLEANUP_INTERVAL_MS :: int where
  "CLEANUP_INTERVAL_MS = 30000"

record ApprovalQueue =
  entries :: "(string \<times> ApprovalEntry) list"
  blanketAllows :: "(string \<times> int) list"
  lastCleanup :: int
  ttl :: int

text \<open>The constructor: \<^verbatim>\<open>constructor(ttlMs: number = DEFAULT_TTL_MS)\<close>, with
  \<^verbatim>\<open>lastCleanup = Date.now()\<close>. An omitted argument is \<open>None\<close>.\<close>

definition new_ApprovalQueue :: "int option \<Rightarrow> int \<Rightarrow> ApprovalQueue" where
  "new_ApprovalQueue ttlMs now =
     \<lparr>entries = [], blanketAllows = [], lastCleanup = now,
      ttl = (case ttlMs of None \<Rightarrow> DEFAULT_TTL_MS | Some t \<Rightarrow> t)\<rparr>"

text \<open>The singleton \<^verbatim>\<open>approvalQueue = new ApprovalQueue()\<close>.\<close>

definition approvalQueue :: "int \<Rightarrow> ApprovalQueue" where
  "approvalQueue now = new_ApprovalQueue None now"

subsection \<open>Key helpers\<close>

definition key :: "string \<Rightarrow> string \<Rightarrow> string \<Rightarrow> string" where
  "key sk mo me = sk @ ''::'' @ mo @ ''.'' @ me"

text \<open>\<^verbatim>\<open>Array.from(entries.keys()).filter(k => k.startsWith(sessionKey + "::"))\<close>\<close>

definition keysForSession :: "(string \<times> ApprovalEntry) list \<Rightarrow> string \<Rightarrow> string list" where
  "keysForSession es sk = filter (prefix (sk @ ''::'')) (map fst es)"

subsection \<open>Housekeeping\<close>

definition cleanup :: "int \<Rightarrow> ApprovalQueue \<Rightarrow> ApprovalQueue" where
  "cleanup now q =
     q\<lparr>entries := filter (\<lambda>(k, entry). \<not> now \<ge> expiresAt entry) (entries q),
       blanketAllows := filter (\<lambda>(k, ex). \<not> now \<ge> ex) (blanketAllows q),
       lastCleanup := now\<rparr>"

definition maybeCleanup :: "int \<Rightarrow> ApprovalQueue \<Rightarrow> ApprovalQueue" where
  "maybeCleanup now q =
     (if now - lastCleanup q > CLEANUP_INTERVAL_MS then cleanup now q else q)"

subsection \<open>Core API of the queue\<close>

definition request :: "int \<Rightarrow> string \<Rightarrow> string \<Rightarrow> string \<Rightarrow> ApprovalQueue
    \<Rightarrow> string \<times> ApprovalQueue" where
  "request now sk mo me q0 =
     (let q = maybeCleanup now q0;
          k = key sk mo me;
          fresh = q\<lparr>entries := AList.update k
                    \<lparr>sessionKey = sk, moduleName = mo, methodName = me, status = Pending,
                     createdAt = now, expiresAt = now + ttl q\<rparr> (entries q)\<rparr>
      in case map_of (entries q) k of
           Some existing \<Rightarrow>
             if status existing = Pending \<and> now < expiresAt existing then
               (if now - createdAt existing \<le> CONSUME_MAX_AGE_MS then (k, q) else (k, fresh))
             else (k, fresh)
         | None \<Rightarrow> (k, fresh))"

definition consume :: "int \<Rightarrow> string \<Rightarrow> string \<Rightarrow> string \<Rightarrow> ApprovalQueue
    \<Rightarrow> bool \<times> ApprovalQueue" where
  "consume now sk mo me q =
     (let k = key sk mo me
      in case map_of (entries q) k of
           Some entry \<Rightarrow>
             if status entry = Approved \<and> now < expiresAt entry
             then (True, q\<lparr>entries := AList.delete k (entries q)\<rparr>)
             else (False, q)
         | None \<Rightarrow> (False, q))"

definition consumePending :: "int \<Rightarrow> string \<Rightarrow> string \<Rightarrow> string \<Rightarrow> ApprovalQueue
    \<Rightarrow> bool \<times> ApprovalQueue" where
  "consumePending now sk mo me q =
     (let k = key sk mo me
      in case map_of (entries q) k of
           Some entry \<Rightarrow>
             if status entry = Pending \<and> now < expiresAt entry then
               (if now - createdAt entry > CONSUME_MAX_AGE_MS then (False, q)
                else (True, q\<lparr>entries := AList.delete k (entries q)\<rparr>))
             else (False, q)
         | None \<Rightarrow> (False, q))"

text \<open>
  One iteration of the loop of \<^verbatim>\<open>approve\<close>. The keys iterated are a snapshot of the
  map's own keys and the loop never deletes, so \<^verbatim>\<open>entries.get(k)!\<close> is always defined;
  the \<open>None\<close> branch is never taken.
\<close>

definition approve_step :: "int \<Rightarrow> int \<Rightarrow> string
    \<Rightarrow> (string \<times> ApprovalEntry) list \<times> nat \<Rightarrow> (string \<times> ApprovalEntry) list \<times> nat" where
  "approve_step now t k acc =
     (case map_of (fst acc) k of
        Some entry \<Rightarrow>
          if status entry = Pending \<and> now < expiresAt entry
          then (AList.update k (entry\<lparr>status := Approved, expiresAt := now + t\<rparr>) (fst acc),
                snd acc + 1)
          else acc
      | None \<Rightarrow> acc)"

definition approve :: "int \<Rightarrow> string \<Rightarrow> ApprovalQueue \<Rightarrow> nat \<times> ApprovalQueue" where
  "approve now sk q0 =
     (let q = maybeCleanup now q0;
          r = fold (approve_step now (ttl q)) (keysForSession (entries q) sk) (entries q, 0)
      in (snd r, q\<lparr>entries := fst r\<rparr>))"

text \<open>One iteration of the loop of \<^verbatim>\<open>deny\<close>; it deletes only the key it visits.\<close>

definition deny_step :: "string
    \<Rightarrow> (string \<times> ApprovalEntry) list \<times> nat \<Rightarrow> (string \<times> ApprovalEntry) list \<times> nat" where
  "deny_step k acc =
     (case map_of (fst acc) k of
        Some entry \<Rightarrow>
          if status entry = Pending then (AList.delete k (fst acc), snd acc + 1) else acc
      | None \<Rightarrow> acc)"

definition deny :: "int \<Rightarrow> string \<Rightarrow> ApprovalQueue \<Rightarrow> nat \<times> ApprovalQueue" where
  "deny now sk q0 =
     (let q = maybeCleanup now q0;
          r = fold deny_step (keysForSession (entries q) sk) (entries q, 0)
      in (snd r, q\<lparr>entries := fst r\<rparr>))"

definition hasPending :: "int \<Rightarrow> string \<Rightarrow> ApprovalQueue \<Rightarrow> bool" where
  "hasPending now sk q =
     list_ex (\<lambda>k. case map_of (entries q) k of
                    Some e \<Rightarrow> status e = Pending \<and> now < expiresAt e
                  | None \<Rightarrow> False)
             (keysForSession (entries q) sk)"

definition getPendingActions :: "int \<Rightarrow> string \<Rightarrow> ApprovalQueue \<Rightarrow> (string \<times> string) list" where
  "getPendingActions now sk q =
     map (\<lambda>e. (moduleName e, methodName e))
       (filter (\<lambda>e. status e = Pending \<and> now < expiresAt e)
          (List.map_filter (map_of (entries q)) (keysForSession (entries q) sk)))"

subsection \<open>Blanket allows\<close>

definition allowFor :: "int \<Rightarrow> string \<Rightarrow> string \<Rightarrow> string \<Rightarrow> int \<Rightarrow> ApprovalQueue
    \<Rightarrow> ApprovalQueue" where
  "allowFor now sk mo me durationMs q =
     q\<lparr>blanketAllows := AList.update (key sk mo me) (now + durationMs) (blanketAllows q)\<rparr>"

text \<open>\<^verbatim>\<open>if (!expiresAt) return false\<close>: a missing key, and also a stored \<open>0\<close>, is falsy.\<close>

definition hasBlanketAllow :: "int \<Rightarrow> string \<Rightarrow> string \<Rightarrow> string \<Rightarrow> ApprovalQueue
    \<Rightarrow> bool \<times> ApprovalQueue" where
  "hasBlanketAllow now sk mo me q =
     (let k = key sk mo me
      in case map_of (blanketAllows q) k of
           None \<Rightarrow> (False, q)
         | Some ex \<Rightarrow>
             if ex = 0 then (False, q)
             else if now \<ge> ex
               then (False, q\<lparr>blanketAllows := AList.delete k (blanketAllows q)\<rparr>)
             else (True, q))"

subsection \<open>Policy and rule lookup\<close>

datatype Decision = ALLOW | DENY | ASK

record SecurityRule =
  action :: Decision
  description :: "string option"

text \<open>
  The \<^verbatim>\<open>modules\<close> object of objects is an association list of association lists:
  the own properties of the policy's objects. A rule is an object, hence truthy.
\<close>

record SecurityPolicy =
  defaultAction :: Decision
  modules :: "(string \<times> (string \<times> SecurityRule) list) list"

text \<open>
  A property read \<^verbatim>\<open>obj[name]\<close> on a plain object returns the own property when there
  is one and follows the prototype chain otherwise. So
  \<^verbatim>\<open>this.policy.modules[moduleName]\<close> and \<^verbatim>\<open>moduleRules[methodName]\<close> can reach values
  that are no part of the policy: the built-ins of the language. Those values are
  \<open>jsval\<close>: \<^verbatim>\<open>null\<close>, a number, a string, a built-in function (by its name) or a built-in
  object (by its name). A read yields \<open>Absent\<close> (\<^verbatim>\<open>undefined\<close>), a value, or
  \<open>Raises\<close> when a getter throws.
\<close>

datatype jsval =
    JsNull
  | JsNumber int
  | JsString string
  | JsFunction string
  | JsBuiltinObject string

datatype jsprop = Absent | Raises | Present jsval

fun truthy_val :: "jsval \<Rightarrow> bool" where
  "truthy_val JsNull = False"
| "truthy_val (JsNumber n) = (n \<noteq> 0)"
| "truthy_val (JsString s) = (s \<noteq> [])"
| "truthy_val (JsFunction f) = True"
| "truthy_val (JsBuiltinObject b) = True"

text \<open>
  The built-ins are a parameter of the model. \<open>objectProto n\<close> is what a plain object
  without an own property \<open>n\<close> returns for \<open>n\<close>; \<open>getv v n\<close> is the read of \<open>n\<close> on the
  built-in value \<open>v\<close>.
\<close>

record Builtins =
  objectProto :: "string \<Rightarrow> jsprop"
  getv :: "jsval \<Rightarrow> string \<Rightarrow> jsprop"

text \<open>
  The built-ins of an unmodified runtime, as ECMAScript 2022 specifies them (later
  editions add static methods to \<^verbatim>\<open>Object\<close>): the properties of
  \<^verbatim>\<open>Object.prototype\<close>, and for the values reached through them (the function
  \<^verbatim>\<open>Object\<close>, the methods of \<^verbatim>\<open>Object.prototype\<close> and \<^verbatim>\<open>Object.prototype\<close> itself)
  their own and inherited properties. \<^verbatim>\<open>caller\<close> and \<^verbatim>\<open>arguments\<close> of a built-in
  function are the accessors of \<^verbatim>\<open>Function.prototype\<close>, which throw a TypeError.
\<close>

definition objectPrototypeMethods :: "string list" where
  "objectPrototypeMethods =
     [''hasOwnProperty'', ''isPrototypeOf'', ''propertyIsEnumerable'', ''toLocaleString'',
      ''toString'', ''valueOf'', ''__defineGetter__'', ''__defineSetter__'',
      ''__lookupGetter__'', ''__lookupSetter__'']"

definition objectStatics :: "string list" where
  "objectStatics =
     [''assign'', ''create'', ''defineProperties'', ''defineProperty'', ''entries'', ''freeze'',
      ''fromEntries'', ''getOwnPropertyDescriptor'', ''getOwnPropertyDescriptors'',
      ''getOwnPropertyNames'', ''getOwnPropertySymbols'', ''getPrototypeOf'', ''hasOwn'', ''is'',
      ''isExtensible'', ''isFrozen'', ''isSealed'', ''keys'', ''preventExtensions'', ''seal'',
      ''setPrototypeOf'', ''values'']"

definition functionLength :: "string \<Rightarrow> int" where
  "functionLength f =
     (if f \<in> set [''__defineGetter__'', ''__defineSetter__''] then 2
      else if f \<in> set [''Object'', ''hasOwnProperty'', ''isPrototypeOf'',
                        ''propertyIsEnumerable'', ''__lookupGetter__'', ''__lookupSetter__'']
        then 1
      else 0)"

definition ecma_objectProto :: "string \<Rightarrow> jsprop" where
  "ecma_objectProto n =
     (if n = ''constructor'' then Present (JsFunction ''Object'')
      else if n = ''__proto__'' then Present (JsBuiltinObject ''Object.prototype'')
      else if n \<in> set objectPrototypeMethods then Present (JsFunction n)
      else Absent)"

definition ecma_getv :: "jsval \<Rightarrow> string \<Rightarrow> jsprop" where
  "ecma_getv v n =
     (case v of
        JsFunction f \<Rightarrow>
          if n = ''name'' then Present (JsString f)
          else if n = ''length'' then Present (JsNumber (functionLength f))
          else if n = ''caller'' \<or> n = ''arguments'' then Raises
          else if f = ''Object'' \<and> n = ''prototype''
            then Present (JsBuiltinObject ''Object.prototype'')
          else if f = ''Object'' \<and> n \<in> set objectStatics then Present (JsFunction n)
          else if n \<in> set [''apply'', ''bind'', ''call'', ''toString''] then Present (JsFunction n)
          else if n = ''constructor'' then Present (JsFunction ''Function'')
          else if n = ''__proto__'' then Present (JsBuiltinObject ''Function.prototype'')
          else if n \<in> set objectPrototypeMethods then Present (JsFunction n)
          else Absent
      | JsBuiltinObject b \<Rightarrow>
          if b = ''Object.prototype'' then
            (if n = ''__proto__'' then Present JsNull else ecma_objectProto n)
          else Absent
      | _ \<Rightarrow> Absent)"

definition ecma_builtins :: Builtins where
  "ecma_builtins = \<lparr>objectProto = ecma_objectProto, getv = ecma_getv\<rparr>"

text \<open>
  What \<^verbatim>\<open>lookupRule\<close> returns is typed as a rule; at run time it is a rule of the
  policy, the fallback rule, or a truthy built-in value found on the prototype chain.
\<close>

datatype ruleval = Rule SecurityRule | NotARule jsval

text \<open>
  The errors \<^verbatim>\<open>evaluate\<close> throws. \<open>SecurityViolation\<close> and \<open>UnknownDecisionType\<close>
  carry the message. The message of \<open>ApprovalRequired\<close> is determined by the module,
  the method, the risk detail and the \<^verbatim>\<open>respondToolAvailable\<close> flag, which the
  constructor carries. \<open>PropertyReadThrew\<close> is the TypeError of a throwing getter.
\<close>

datatype error =
    ApprovalRequired string string string bool
  | SecurityViolation string
  | UnknownDecisionType string
  | PropertyReadThrew

definition lookupRule :: "Builtins \<Rightarrow> SecurityPolicy \<Rightarrow> string \<Rightarrow> string
    \<Rightarrow> error + ruleval" where
  "lookupRule bi policy mo me =
     (let fallback = Inr (Rule \<lparr>action = defaultAction policy,
                      description = Some (''No specific rule defined for '' @ mo @ ''.'' @ me)\<rparr>)
      in case map_of (modules policy) mo of
           Some moduleRules \<Rightarrow>
             (case map_of moduleRules me of
                Some rule \<Rightarrow> Inr (Rule rule)
              | None \<Rightarrow>
                  (case objectProto bi me of
                     Absent \<Rightarrow> fallback
                   | Raises \<Rightarrow> Inl PropertyReadThrew
                   | Present v \<Rightarrow> if truthy_val v then Inr (NotARule v) else fallback))
         | None \<Rightarrow>
             (case objectProto bi mo of
                Absent \<Rightarrow> fallback
              | Raises \<Rightarrow> Inl PropertyReadThrew
              | Present m \<Rightarrow>
                  if \<not> truthy_val m then fallback
                  else
                    (case getv bi m me of
                       Absent \<Rightarrow> fallback
                     | Raises \<Rightarrow> Inl PropertyReadThrew
                     | Present v \<Rightarrow> if truthy_val v then Inr (NotARule v) else fallback)))"

subsection \<open>Arbitrator\<close>

text \<open>
  The environment of one evaluation: whether \<^verbatim>\<open>process.stdin.isTTY\<close> holds, for the
  interactive prompt the choice the human makes, and the built-ins of the runtime.
\<close>

record Env =
  isTTY :: bool
  ttyDecision :: bool
  builtins :: Builtins

text \<open>Truthiness of an optional string: \<^verbatim>\<open>undefined\<close> and \<^verbatim>\<open>""\<close> are falsy.\<close>

definition truthy :: "string option \<Rightarrow> bool" where
  "truthy s = (case s of None \<Rightarrow> False | Some x \<Rightarrow> x \<noteq> [])"

definition judgeTTY :: "Env \<Rightarrow> bool" where
  "judgeTTY env = ttyDecision env"

definition judgeChannel :: "int \<Rightarrow> string \<Rightarrow> string \<Rightarrow> string \<Rightarrow> ApprovalQueue
    \<Rightarrow> bool \<times> ApprovalQueue" where
  "judgeChannel now sk mo me q =
     (let a = consume now sk mo me q in
      if fst a then (True, snd a)
      else
        let b = consumePending now sk mo me (snd a) in
        if fst b then (True, snd b)
        else (False, snd (request now sk mo me (snd b))))"

definition judge :: "Env \<Rightarrow> int \<Rightarrow> string option \<Rightarrow> string \<Rightarrow> string \<Rightarrow> ApprovalQueue
    \<Rightarrow> bool \<times> ApprovalQueue" where
  "judge env now sko mo me q =
     (if isTTY env then (judgeTTY env, q)
      else case sko of
             Some sk \<Rightarrow> if sk \<noteq> [] then judgeChannel now sk mo me q else (False, q)
           | None \<Rightarrow> (False, q))"

subsection \<open>Interceptor\<close>

record Interceptor =
  policy :: SecurityPolicy
  respondToolAvailable :: bool

text \<open>
  \<^verbatim>\<open>switch (rule.action)\<close>. A built-in value reached through the prototype chain has
  no property named \<^verbatim>\<open>action\<close>, so for it \<^verbatim>\<open>rule.action\<close> is \<^verbatim>\<open>undefined\<close> and the
  default branch throws.
\<close>

definition executeDecision :: "Env \<Rightarrow> int \<Rightarrow> ruleval \<Rightarrow> string \<Rightarrow> string
    \<Rightarrow> string option \<Rightarrow> ApprovalQueue \<Rightarrow> error + bool \<times> ApprovalQueue" where
  "executeDecision env now rv mo me sko q =
     (case rv of
        Rule rule \<Rightarrow>
          (case action rule of
             ALLOW \<Rightarrow> Inr (True, q)
           | DENY \<Rightarrow> Inr (False, q)
           | ASK \<Rightarrow> Inr (judge env now sko mo me q))
      | NotARule v \<Rightarrow> Inl (UnknownDecisionType ''Unknown decision type: undefined''))"

definition evaluate :: "Interceptor \<Rightarrow> Env \<Rightarrow> int \<Rightarrow> string \<Rightarrow> string \<Rightarrow> string option
    \<Rightarrow> ApprovalQueue \<Rightarrow> (error + unit) \<times> ApprovalQueue" where
  "evaluate ic env now mo me sko q =
     (case lookupRule (builtins env) (policy ic) mo me of
        Inl e \<Rightarrow> (Inl e, q)
      | Inr rv \<Rightarrow>
          (case executeDecision env now rv mo me sko q of
             Inl e \<Rightarrow> (Inl e, q)
           | Inr r \<Rightarrow>
               if \<not> fst r then
                 (let isChannelMode = (\<not> isTTY env \<and> truthy sko);
                      detail = (case rv of
                                  Rule rule \<Rightarrow>
                                    (case description rule of
                                       None \<Rightarrow> ''No description provided.''
                                     | Some d \<Rightarrow>
                                         if d = [] then ''No description provided.'' else d)
                                | NotARule v \<Rightarrow> ''No description provided.'')
                  in if isChannelMode
                     then (Inl (ApprovalRequired mo me detail (respondToolAvailable ic)), snd r)
                     else (Inl (SecurityViolation
                             (''ClawBands Security Violation: '' @ mo @ ''.'' @ me
                                @ ''() was DENIED. '' @ detail)), snd r))
               else (Inr (), snd r)))"

subsection \<open>The reply tool\<close>

text \<open>
  \<^verbatim>\<open>handleRespondTool\<close> of \<^verbatim>\<open>src/plugin/tool-interceptor.ts\<close>, the only caller of
  \<^verbatim>\<open>approve\<close>, \<^verbatim>\<open>deny\<close> and \<^verbatim>\<open>allowFor\<close>. The argument \<open>decision\<close> is the
  parameter after \<^verbatim>\<open>toLowerCase()\<close> (the empty string when it is not a string). The
  call always blocks; the result names the \<^verbatim>\<open>blockReason\<close> it returns:
  \<^verbatim>\<open>Error: no session context available.\<close>, \<^verbatim>\<open>No pending approvals to approve.\<close>,
  \<^verbatim>\<open>Approved. Retry the blocked tool.\<close>, \<^verbatim>\<open>Denied. Do NOT retry the blocked tool.\<close>,
  \<^verbatim>\<open>No pending approvals to allow.\<close>, \<^verbatim>\<open>Approved for 15 minutes: ...\<close> with the
  list of operations, and the invalid-decision message.
\<close>

definition BLANKET_DURATION_MS :: int where
  "BLANKET_DURATION_MS = 15 * 60 * 1000"

datatype RespondResult =
    NoSessionContext
  | NoPendingToApprove
  | ApprovedRetry
  | DeniedNoRetry
  | NoPendingToAllow
  | ApprovedFor15Minutes "(string \<times> string) list"
  | InvalidDecision

definition handleRespondTool :: "int \<Rightarrow> string \<Rightarrow> string option \<Rightarrow> ApprovalQueue
    \<Rightarrow> RespondResult \<times> ApprovalQueue" where
  "handleRespondTool now decision sko q =
     (case sko of
        None \<Rightarrow> (NoSessionContext, q)
      | Some sk \<Rightarrow>
          if sk = [] then (NoSessionContext, q)
          else if decision = ''yes'' then
            (if \<not> hasPending now sk q then (NoPendingToApprove, q)
             else (ApprovedRetry, snd (approve now sk q)))
          else if decision = ''no'' then (DeniedNoRetry, snd (deny now sk q))
          else if decision = ''allow'' then
            (let pending = getPendingActions now sk q in
             if pending = [] then (NoPendingToAllow, q)
             else
               let q1 = fold (\<lambda>(mo, me) acc. allowFor now sk mo me BLANKET_DURATION_MS acc)
                          pending q
               in (ApprovedFor15Minutes pending, snd (approve now sk q1)))
          else (InvalidDecision, q))"

text \<open>The default policy of \<^verbatim>\<open>src/config.ts\<close>.\<close>

definition DEFAULT_POLICY :: SecurityPolicy where
  "DEFAULT_POLICY =
     \<lparr>defaultAction = ASK,
      modules =
        [(''FileSystem'',
            [(''read'', \<lparr>action = ALLOW, description = Some ''Read-only access is generally safe''\<rparr>),
             (''write'', \<lparr>action = ASK, description = Some ''Modification of files requires approval''\<rparr>),
             (''delete'', \<lparr>action = DENY, description = Some ''Deletion is strictly prohibited''\<rparr>)]),
         (''Shell'',
            [(''bash'', \<lparr>action = ASK, description = Some ''Shell command execution risk''\<rparr>),
             (''exec'', \<lparr>action = ASK, description = Some ''Arbitrary Code Execution (RCE) risk''\<rparr>),
             (''spawn'', \<lparr>action = ASK, description = Some ''Process spawning risk''\<rparr>)]),
         (''Network'',
            [(''fetch'', \<lparr>action = ASK, description = Some ''Potential data exfiltration''\<rparr>),
             (''request'', \<lparr>action = ASK, description = Some ''HTTP request may leak data''\<rparr>)])]\<rparr>"

subsection \<open>Well-formed queues\<close>

text \<open>
  Two facts hold of every queue the program can reach: a \<^verbatim>\<open>Map\<close> has each key once,
  and \<^verbatim>\<open>request\<close>, the only operation that stores an entry, stores it under the
  composite key of its own fields. \<open>wf_queue\<close> states both; the lemmas of the next
  section show that the constructor establishes it and every operation keeps it.
\<close>

definition wf_queue :: "ApprovalQueue \<Rightarrow> bool" where
  "wf_queue q =
     (distinct (map fst (entries q)) \<and>
      list_all (\<lambda>(k, e). k = key (sessionKey e) (moduleName e) (methodName e)) (entries q))"

text \<open>Concrete states used in the examples below.\<close>

definition daemon_env :: Env where
  "daemon_env = \<lparr>isTTY = False, ttyDecision = False, builtins = ecma_builtins\<rparr>"

definition entry_of :: "string \<Rightarrow> string \<Rightarrow> string \<Rightarrow> status \<Rightarrow> int \<Rightarrow> int \<Rightarrow> ApprovalEntry" where
  "entry_of sk mo me st c x =
     \<lparr>sessionKey = sk, moduleName = mo, methodName = me, status = st,
      createdAt = c, expiresAt = x\<rparr>"

definition queue_of :: "(string \<times> ApprovalEntry) list \<Rightarrow> int \<Rightarrow> ApprovalQueue" where
  "queue_of es lc = \<lparr>entries = es, blanketAllows = [], lastCleanup = lc, ttl = DEFAULT_TTL_MS\<rparr>"

text \<open>
  The ALLOW flow in channel mode: a first call is blocked at 1000, the user answers
  ALLOW at 2000, the retry is judged at 3000.
\<close>

definition ex_blocked :: ApprovalQueue where
  "ex_blocked = snd (judge daemon_env 1000 (Some ''s'') ''Network'' ''fetch'' (approvalQueue 0))"

definition ex_allow_reply :: ApprovalQueue where
  "ex_allow_reply = snd (handleRespondTool 2000 ''allow'' (Some ''s'') ex_blocked)"

definition ex_retried :: ApprovalQueue where
  "ex_retried = snd (judge daemon_env 3000 (Some ''s'') ''Network'' ''fetch'' ex_allow_reply)"

text \<open>States reached by the calls of the examples.\<close>

definition ex_requested :: ApprovalQueue where
  "ex_requested = snd (request 1000 ''s'' ''Shell'' ''bash'' (approvalQueue 0))"

definition ex_approved :: ApprovalQueue where
  "ex_approved = snd (approve 2000 ''s'' ex_requested)"

definition ex_consumed :: ApprovalQueue where
  "ex_consumed = snd (consume 3000 ''s'' ''Shell'' ''bash'' ex_approved)"

definition ex_other :: ApprovalQueue where
  "ex_other = snd (request 1000 ''t'' ''Shell'' ''bash'' (approvalQueue 0))"

definition ex_collide :: ApprovalQueue where
  "ex_collide = snd (request 1000 ''a::b'' ''Shell'' ''bash'' (approvalQueue 0))"

definition ex_allowed :: ApprovalQueue where
  "ex_allowed = allowFor 1000 ''s'' ''Network'' ''fetch'' 900000 (approvalQueue 0)"

subsection \<open>Association lists\<close>

lemma key_prefix: "prefix (sk @ ''::'') (key sk mo me)"
  by (simp add: key_def)

lemma map_of_filter_Some:
  "map_of xs k = Some e \<Longrightarrow> P (k, e) \<Longrightarrow> map_of (filter P xs) k = Some e"
  by (induction xs) (auto split: if_splits)

lemma map_of_filter_distinct:
  "distinct (map fst xs) \<Longrightarrow>
   map_of (filter P xs) k =
     (case map_of xs k of None \<Rightarrow> None | Some e \<Rightarrow> if P (k, e) then Some e else None)"
proof (induction xs)
  case Nil
  then show ?case by simp
next
  case (Cons x xs)
  obtain a b where x: "x = (a, b)" by (cases x)
  from Cons.prems have nin: "a \<notin> fst ` set xs" and d: "distinct (map fst xs)"
    by (auto simp: x)
  have none: "map_of (filter P xs) a = None"
    using nin by (auto simp: map_of_eq_None_iff)
  show ?case
    using Cons.IH [OF d] none by (auto simp: x split: option.splits)
qed

lemma distinct_key_once:
  "distinct (map fst xs) \<Longrightarrow> map_of xs k = Some e \<Longrightarrow> length (filter (\<lambda>p. fst p = k) xs) = 1"
proof (induction xs)
  case Nil
  then show ?case by simp
next
  case (Cons x xs)
  show ?case
  proof (cases "fst x = k")
    case True
    with Cons.prems have "k \<notin> fst ` set xs" by auto
    then have "filter (\<lambda>p. fst p = k) xs = []"
      by (auto simp: filter_empty_conv)
    with True show ?thesis by simp
  next
    case False
    with Cons show ?thesis by (cases x) auto
  qed
qed

lemma filter_keys_map_of:
  "distinct (map fst xs) \<Longrightarrow>
   filter (\<lambda>k. R k (map_of xs k)) (map fst xs) = map fst (filter (\<lambda>(k, e). R k (Some e)) xs)"
proof -
  assume d: "distinct (map fst xs)"
  have "filter ((\<lambda>k. R k (map_of xs k)) \<circ> fst) xs = filter (\<lambda>(k, e). R k (Some e)) xs"
    by (rule filter_cong) (auto simp: d)
  then show ?thesis by (simp add: filter_map)
qed

lemma filter_delete_irrelevant:
  assumes "\<And>e. \<not> P (k, e)"
  shows "filter P (AList.delete k xs) = filter P xs"
proof -
  have "filter (\<lambda>x. (case x of (k', _) \<Rightarrow> k \<noteq> k') \<and> P x) xs = filter P xs"
    by (rule filter_cong) (use assms in auto)
  then show ?thesis by (simp add: AList.delete_eq)
qed

lemma approved_neq:
  "status e = Pending \<Longrightarrow> e\<lparr>status := Approved, expiresAt := x\<rparr> \<noteq> e"
proof
  assume p: "status e = Pending" and eq: "e\<lparr>status := Approved, expiresAt := x\<rparr> = e"
  have "status (e\<lparr>status := Approved, expiresAt := x\<rparr>) = Approved" by simp
  with eq have "status e = Approved" by simp
  with p show False by simp
qed

subsection \<open>The loops of approve and deny\<close>

lemma approve_step_map_of:
  "map_of (fst (approve_step now t x acc)) k =
     (if k = x then
        (case map_of (fst acc) k of
           Some e \<Rightarrow> if status e = Pending \<and> now < expiresAt e
                     then Some (e\<lparr>status := Approved, expiresAt := now + t\<rparr>) else Some e
         | None \<Rightarrow> None)
      else map_of (fst acc) k)"
  by (auto simp: approve_step_def AList.update_conv' split: option.splits)

lemma approve_fold_map_of:
  "map_of (fst (fold (approve_step now t) ks acc)) k =
     (if k \<in> set ks then
        (case map_of (fst acc) k of
           Some e \<Rightarrow> if status e = Pending \<and> now < expiresAt e
                     then Some (e\<lparr>status := Approved, expiresAt := now + t\<rparr>) else Some e
         | None \<Rightarrow> None)
      else map_of (fst acc) k)"
proof (induction ks arbitrary: acc)
  case Nil
  then show ?case by simp
next
  case (Cons x xs)
  show ?case
    by (simp add: Cons.IH approve_step_map_of split: option.splits)
qed

lemma approve_step_keys:
  "map fst (fst (approve_step now t x acc)) = map fst (fst acc)"
  by (auto simp: approve_step_def AList.update_keys split: option.splits
           dest: map_of_SomeD intro: rev_image_eqI)

lemma approve_fold_keys:
  "map fst (fst (fold (approve_step now t) ks acc)) = map fst (fst acc)"
  by (induction ks arbitrary: acc) (simp_all add: approve_step_keys)

lemma approve_step_snd:
  "snd (approve_step now t x acc) =
     snd acc + (case map_of (fst acc) x of
                  Some e \<Rightarrow> if status e = Pending \<and> now < expiresAt e then 1 else 0
                | None \<Rightarrow> 0)"
  by (simp add: approve_step_def split: option.splits)

lemma approve_fold_count:
  "distinct ks \<Longrightarrow>
   snd (fold (approve_step now t) ks acc) =
     snd acc + length (filter (\<lambda>k. case map_of (fst acc) k of
                                      Some e \<Rightarrow> status e = Pending \<and> now < expiresAt e
                                    | None \<Rightarrow> False) ks)"
proof (induction ks arbitrary: acc)
  case Nil
  then show ?case by simp
next
  case (Cons x xs)
  from Cons.prems have nin: "x \<notin> set xs" and d: "distinct xs" by auto
  have same: "\<And>k. k \<in> set xs \<Longrightarrow>
      map_of (fst (approve_step now t x acc)) k = map_of (fst acc) k"
    using nin by (auto simp: approve_step_map_of)
  have "filter (\<lambda>k. case map_of (fst (approve_step now t x acc)) k of
                      Some e \<Rightarrow> status e = Pending \<and> now < expiresAt e | None \<Rightarrow> False) xs
      = filter (\<lambda>k. case map_of (fst acc) k of
                      Some e \<Rightarrow> status e = Pending \<and> now < expiresAt e | None \<Rightarrow> False) xs"
    by (rule filter_cong) (simp_all add: same)
  then show ?case
    by (simp add: Cons.IH [OF d] approve_step_snd split: option.splits)
qed

lemma deny_step_map_of:
  "map_of (fst (deny_step x acc)) k =
     (if k = x then
        (case map_of (fst acc) k of
           Some e \<Rightarrow> if status e = Pending then None else Some e
         | None \<Rightarrow> None)
      else map_of (fst acc) k)"
  by (auto simp: deny_step_def AList.delete_conv' split: option.splits)

lemma deny_fold_map_of:
  "map_of (fst (fold deny_step ks acc)) k =
     (if k \<in> set ks then
        (case map_of (fst acc) k of
           Some e \<Rightarrow> if status e = Pending then None else Some e
         | None \<Rightarrow> None)
      else map_of (fst acc) k)"
proof (induction ks arbitrary: acc)
  case Nil
  then show ?case by simp
next
  case (Cons x xs)
  show ?case
    by (simp add: Cons.IH deny_step_map_of split: option.splits)
qed

lemma deny_step_snd:
  "snd (deny_step x acc) =
     snd acc + (case map_of (fst acc) x of
                  Some e \<Rightarrow> if status e = Pending then 1 else 0
                | None \<Rightarrow> 0)"
  by (simp add: deny_step_def split: option.splits)

lemma deny_fold_count:
  "distinct ks \<Longrightarrow>
   snd (fold deny_step ks acc) =
     snd acc + length (filter (\<lambda>k. case map_of (fst acc) k of
                                      Some e \<Rightarrow> status e = Pending
                                    | None \<Rightarrow> False) ks)"
proof (induction ks arbitrary: acc)
  case Nil
  then show ?case by simp
next
  case (Cons x xs)
  from Cons.prems have nin: "x \<notin> set xs" and d: "distinct xs" by auto
  have same: "\<And>k. k \<in> set xs \<Longrightarrow> map_of (fst (deny_step x acc)) k = map_of (fst acc) k"
    using nin by (auto simp: deny_step_map_of)
  have "filter (\<lambda>k. case map_of (fst (deny_step x acc)) k of
                      Some e \<Rightarrow> status e = Pending | None \<Rightarrow> False) xs
      = filter (\<lambda>k. case map_of (fst acc) k of
                      Some e \<Rightarrow> status e = Pending | None \<Rightarrow> False) xs"
    by (rule filter_cong) (simp_all add: same)
  then show ?case
    by (simp add: Cons.IH [OF d] deny_step_snd split: option.splits)
qed

lemma deny_step_distinct:
  "distinct (map fst (fst acc)) \<Longrightarrow> distinct (map fst (fst (deny_step x acc)))"
  by (simp add: deny_step_def AList.distinct_delete split: option.splits)

lemma deny_fold_distinct:
  "distinct (map fst (fst acc)) \<Longrightarrow> distinct (map fst (fst (fold deny_step ks acc)))"
  by (induction ks arbitrary: acc) (simp_all add: deny_step_distinct)

lemma approve_step_noop:
  "\<forall>e. map_of (fst acc) k = Some e \<longrightarrow> \<not> (status e = Pending \<and> now < expiresAt e) \<Longrightarrow>
   approve_step now t k acc = acc"
  by (cases "map_of (fst acc) k") (auto simp: approve_step_def)

lemma approve_fold_noop:
  "\<forall>k\<in>set ks. \<forall>e. map_of (fst acc) k = Some e \<longrightarrow> \<not> (status e = Pending \<and> now < expiresAt e)
   \<Longrightarrow> fold (approve_step now t) ks acc = acc"
proof (induction ks)
  case Nil
  then show ?case by simp
next
  case (Cons x xs)
  then have "approve_step now t x acc = acc"
    by (intro approve_step_noop) simp
  with Cons show ?case by simp
qed

subsection \<open>The housekeeping sweep\<close>

lemma maybeCleanup_ttl [simp]: "ttl (maybeCleanup now q) = ttl q"
  by (simp add: maybeCleanup_def cleanup_def)

lemma maybeCleanup_entries:
  "entries (maybeCleanup now q) = entries q \<or>
   entries (maybeCleanup now q) = filter (\<lambda>(k, e). now < expiresAt e) (entries q)"
  by (simp add: maybeCleanup_def cleanup_def not_le)

lemma maybeCleanup_distinct:
  "distinct (map fst (entries q)) \<Longrightarrow> distinct (map fst (entries (maybeCleanup now q)))"
  using maybeCleanup_entries [of now q] by (auto simp: distinct_map_filter)

lemma maybeCleanup_live:
  "map_of (entries q) k = Some e \<Longrightarrow> now < expiresAt e \<Longrightarrow>
   map_of (entries (maybeCleanup now q)) k = Some e"
  using maybeCleanup_entries [of now q] by (auto intro: map_of_filter_Some)

lemma maybeCleanup_None:
  "map_of (entries q) k = None \<Longrightarrow> map_of (entries (maybeCleanup now q)) k = None"
  using maybeCleanup_entries [of now q] by (auto simp: map_of_eq_None_iff)

lemma maybeCleanup_sub:
  "distinct (map fst (entries q)) \<Longrightarrow>
   map_of (entries (maybeCleanup now q)) k = Some e \<Longrightarrow> map_of (entries q) k = Some e"
  using maybeCleanup_entries [of now q]
  by (auto simp: map_of_filter_distinct split: option.splits if_splits)

lemma maybeCleanup_keep:
  "map_of (entries q) k = Some e \<Longrightarrow>
   now < expiresAt e \<or> now - lastCleanup q \<le> CLEANUP_INTERVAL_MS \<Longrightarrow>
   map_of (entries (maybeCleanup now q)) k = Some e"
  by (auto simp: maybeCleanup_def cleanup_def not_le intro: map_of_filter_Some)

lemma maybeCleanup_not_due:
  "now - lastCleanup q \<le> CLEANUP_INTERVAL_MS \<Longrightarrow> maybeCleanup now q = q"
  by (simp add: maybeCleanup_def)

lemma maybeCleanup_delete:
  "entries (maybeCleanup now (q\<lparr>entries := AList.delete k (entries q)\<rparr>))
     = AList.delete k (entries (maybeCleanup now q))"
  by (simp add: maybeCleanup_def cleanup_def AList.delete_eq conj_commute)

subsection \<open>Well-formedness is an invariant\<close>

lemma wf_queue_iff:
  "wf_queue q \<longleftrightarrow>
     distinct (map fst (entries q)) \<and>
     (\<forall>k e. map_of (entries q) k = Some e \<longrightarrow>
        k = key (sessionKey e) (moduleName e) (methodName e))"
  by (auto simp: wf_queue_def list_all_iff dest: map_of_SomeD)

lemma wf_queueI:
  "distinct (map fst (entries q)) \<Longrightarrow>
   (\<And>k e. map_of (entries q) k = Some e \<Longrightarrow>
      k = key (sessionKey e) (moduleName e) (methodName e)) \<Longrightarrow> wf_queue q"
  by (simp add: wf_queue_iff)

lemma wf_queue_distinct: "wf_queue q \<Longrightarrow> distinct (map fst (entries q))"
  by (simp add: wf_queue_iff)

lemma wf_queue_keyed:
  "wf_queue q \<Longrightarrow> map_of (entries q) k = Some e \<Longrightarrow>
   k = key (sessionKey e) (moduleName e) (methodName e)"
  by (simp add: wf_queue_iff del: map_of_eq_Some_iff)

lemma wf_new_ApprovalQueue: "wf_queue (new_ApprovalQueue t now)"
  by (simp add: wf_queue_def new_ApprovalQueue_def)

lemma wf_maybeCleanup: "wf_queue q \<Longrightarrow> wf_queue (maybeCleanup now q)"
  unfolding wf_queue_iff
  using maybeCleanup_distinct [of q now] maybeCleanup_sub [of q now] by blast

lemma wf_request: "wf_queue q \<Longrightarrow> wf_queue (snd (request now sk mo me q))"
proof (rule wf_queueI)
  assume "wf_queue q"
  then have w: "wf_queue (maybeCleanup now q)" by (rule wf_maybeCleanup)
  show "distinct (map fst (entries (snd (request now sk mo me q))))"
    using wf_queue_distinct [OF w]
    by (simp add: request_def Let_def AList.distinct_update split: option.splits)
  fix k e
  assume "map_of (entries (snd (request now sk mo me q))) k = Some e"
  then show "k = key (sessionKey e) (moduleName e) (methodName e)"
    using wf_queue_keyed [OF w, of k e]
    by (auto simp: request_def Let_def AList.update_conv' simp del: map_of_eq_Some_iff
             split: option.splits if_splits)
qed

lemma wf_consume: "wf_queue q \<Longrightarrow> wf_queue (snd (consume now sk mo me q))"
proof (rule wf_queueI)
  assume w: "wf_queue q"
  show "distinct (map fst (entries (snd (consume now sk mo me q))))"
    using wf_queue_distinct [OF w]
    by (simp add: consume_def Let_def AList.distinct_delete split: option.splits)
  fix k e
  assume "map_of (entries (snd (consume now sk mo me q))) k = Some e"
  then show "k = key (sessionKey e) (moduleName e) (methodName e)"
    using wf_queue_keyed [OF w, of k e]
    by (auto simp: consume_def Let_def AList.delete_conv' simp del: map_of_eq_Some_iff
             split: option.splits if_splits)
qed

lemma wf_consumePending: "wf_queue q \<Longrightarrow> wf_queue (snd (consumePending now sk mo me q))"
proof (rule wf_queueI)
  assume w: "wf_queue q"
  show "distinct (map fst (entries (snd (consumePending now sk mo me q))))"
    using wf_queue_distinct [OF w]
    by (simp add: consumePending_def Let_def AList.distinct_delete split: option.splits)
  fix k e
  assume "map_of (entries (snd (consumePending now sk mo me q))) k = Some e"
  then show "k = key (sessionKey e) (moduleName e) (methodName e)"
    using wf_queue_keyed [OF w, of k e]
    by (auto simp: consumePending_def Let_def AList.delete_conv' simp del: map_of_eq_Some_iff
             split: option.splits if_splits)
qed

lemma wf_approve: "wf_queue q \<Longrightarrow> wf_queue (snd (approve now sk q))"
proof (rule wf_queueI)
  assume "wf_queue q"
  then have w: "wf_queue (maybeCleanup now q)" by (rule wf_maybeCleanup)
  show "distinct (map fst (entries (snd (approve now sk q))))"
    using wf_queue_distinct [OF w]
    by (simp add: approve_def Let_def approve_fold_keys)
  fix k e
  assume "map_of (entries (snd (approve now sk q))) k = Some e"
  then show "k = key (sessionKey e) (moduleName e) (methodName e)"
    using wf_queue_keyed [OF w, of k]
    by (auto simp: approve_def Let_def approve_fold_map_of simp del: map_of_eq_Some_iff
             split: option.splits if_splits)
qed

lemma wf_deny: "wf_queue q \<Longrightarrow> wf_queue (snd (deny now sk q))"
proof (rule wf_queueI)
  assume "wf_queue q"
  then have w: "wf_queue (maybeCleanup now q)" by (rule wf_maybeCleanup)
  show "distinct (map fst (entries (snd (deny now sk q))))"
    using wf_queue_distinct [OF w]
    by (simp add: deny_def Let_def deny_fold_distinct)
  fix k e
  assume "map_of (entries (snd (deny now sk q))) k = Some e"
  then show "k = key (sessionKey e) (moduleName e) (methodName e)"
    using wf_queue_keyed [OF w, of k]
    by (auto simp: deny_def Let_def deny_fold_map_of simp del: map_of_eq_Some_iff
             split: option.splits if_splits)
qed

lemma wf_allowFor: "wf_queue q \<Longrightarrow> wf_queue (allowFor now sk mo me d q)"
  by (simp add: wf_queue_def allowFor_def)

lemma wf_hasBlanketAllow: "wf_queue q \<Longrightarrow> wf_queue (snd (hasBlanketAllow now sk mo me q))"
  by (simp add: wf_queue_def hasBlanketAllow_def Let_def split: option.splits)

lemma wf_judge: "wf_queue q \<Longrightarrow> wf_queue (snd (judge env now sko mo me q))"
  by (auto simp: judge_def judgeChannel_def Let_def split: option.splits
           intro: wf_consume wf_consumePending wf_request)

lemma evaluate_snd:
  "snd (evaluate ic env now mo me sko q) = q \<or>
   snd (evaluate ic env now mo me sko q) = snd (judge env now sko mo me q)"
  by (auto simp: evaluate_def executeDecision_def Let_def
           split: Decision.splits sum.splits ruleval.splits)

lemma wf_evaluate: "wf_queue q \<Longrightarrow> wf_queue (snd (evaluate ic env now mo me sko q))"
  using evaluate_snd [of ic env now mo me sko q] wf_judge [of q env now sko mo me] by auto

lemma wf_allowFor_fold:
  "wf_queue q \<Longrightarrow>
   wf_queue (fold (\<lambda>(mo, me) acc. allowFor now sk mo me d acc) ps q)"
  by (induction ps arbitrary: q) (auto intro: wf_allowFor)

lemma wf_handleRespondTool:
  "wf_queue q \<Longrightarrow> wf_queue (snd (handleRespondTool now decision sko q))"
  by (auto simp: handleRespondTool_def Let_def split: option.splits
           intro: wf_approve wf_deny wf_allowFor_fold)

subsection \<open>Characterisations of the operations\<close>

lemma approve_map_of:
  "map_of (entries (snd (approve now s q))) k =
     (case map_of (entries (maybeCleanup now q)) k of
        Some e \<Rightarrow>
          if prefix (s @ ''::'') k \<and> status e = Pending \<and> now < expiresAt e
          then Some (e\<lparr>status := Approved, expiresAt := now + ttl q\<rparr>) else Some e
      | None \<Rightarrow> None)"
  by (auto simp: approve_def Let_def approve_fold_map_of keysForSession_def
           split: option.splits dest: map_of_SomeD intro: rev_image_eqI)

lemma deny_map_of:
  "map_of (entries (snd (deny now s q))) k =
     (case map_of (entries (maybeCleanup now q)) k of
        Some e \<Rightarrow> if prefix (s @ ''::'') k \<and> status e = Pending then None else Some e
      | None \<Rightarrow> None)"
  by (auto simp: deny_def Let_def deny_fold_map_of keysForSession_def
           split: option.splits dest: map_of_SomeD intro: rev_image_eqI)

lemma request_fst: "fst (request now sk mo me q) = key sk mo me"
  by (simp add: request_def Let_def split: option.splits)

lemma request_armed:
  "\<exists>e. map_of (entries (snd (request now sk mo me q))) (key sk mo me) = Some e \<and>
       status e = Pending"
  by (auto simp: request_def Let_def AList.update_conv' split: option.splits)

lemma request_fresh:
  "\<not> (\<exists>e. map_of (entries (maybeCleanup now q)) (key sk mo me) = Some e \<and> status e = Pending \<and>
         now < expiresAt e \<and> now - createdAt e \<le> CONSUME_MAX_AGE_MS) \<Longrightarrow>
   map_of (entries (snd (request now sk mo me q))) (key sk mo me) =
     Some \<lparr>sessionKey = sk, moduleName = mo, methodName = me, status = Pending,
           createdAt = now, expiresAt = now + ttl q\<rparr>"
  by (auto simp: request_def Let_def AList.update_conv' split: option.splits)

lemma request_kept:
  "map_of (entries (maybeCleanup now q)) (key sk mo me) = Some e \<Longrightarrow> status e = Pending \<Longrightarrow>
   now < expiresAt e \<Longrightarrow> now - createdAt e \<le> CONSUME_MAX_AGE_MS \<Longrightarrow>
   snd (request now sk mo me q) = maybeCleanup now q"
  by (simp add: request_def Let_def)

lemma request_distinct:
  "distinct (map fst (entries q)) \<Longrightarrow> distinct (map fst (entries (snd (request now sk mo me q))))"
  using maybeCleanup_distinct [of q now]
  by (simp add: request_def Let_def AList.distinct_update split: option.splits)

lemma consume_iff:
  "fst (consume now sk mo me q) \<longleftrightarrow>
     (\<exists>e. map_of (entries q) (key sk mo me) = Some e \<and> status e = Approved \<and> now < expiresAt e)"
  by (auto simp: consume_def Let_def split: option.splits)

lemma consume_True:
  "fst (consume now sk mo me q) \<Longrightarrow>
   snd (consume now sk mo me q) = q\<lparr>entries := AList.delete (key sk mo me) (entries q)\<rparr>"
  by (auto simp: consume_def Let_def split: option.splits if_splits)

lemma consume_False:
  "\<not> fst (consume now sk mo me q) \<Longrightarrow> snd (consume now sk mo me q) = q"
  by (auto simp: consume_def Let_def split: option.splits if_splits)

lemma consumePending_iff:
  "fst (consumePending now sk mo me q) \<longleftrightarrow>
     (\<exists>e. map_of (entries q) (key sk mo me) = Some e \<and> status e = Pending \<and>
          now < expiresAt e \<and> now - createdAt e \<le> CONSUME_MAX_AGE_MS)"
  by (auto simp: consumePending_def Let_def split: option.splits)

lemma consumePending_True:
  "fst (consumePending now sk mo me q) \<Longrightarrow>
   snd (consumePending now sk mo me q) = q\<lparr>entries := AList.delete (key sk mo me) (entries q)\<rparr>"
  by (auto simp: consumePending_def Let_def split: option.splits if_splits)

lemma consumePending_False:
  "\<not> fst (consumePending now sk mo me q) \<Longrightarrow> snd (consumePending now sk mo me q) = q"
  by (auto simp: consumePending_def Let_def split: option.splits if_splits)

lemma approve_count:
  assumes d: "distinct (map fst (entries q))"
  shows "fst (approve now s q) =
     length (filter (\<lambda>(k, e). prefix (s @ ''::'') k \<and> status e = Pending \<and> now < expiresAt e)
               (entries (maybeCleanup now q)))"
proof -
  let ?es = "entries (maybeCleanup now q)"
  let ?R = "\<lambda>k v. prefix (s @ ''::'') k \<and>
              (case v of Some e \<Rightarrow> status e = Pending \<and> now < expiresAt e | None \<Rightarrow> False)"
  have d1: "distinct (map fst ?es)" using d by (rule maybeCleanup_distinct)
  then have dk: "distinct (keysForSession ?es s)" by (simp add: keysForSession_def)
  have "fst (approve now s q) =
      length (filter (\<lambda>k. case map_of ?es k of
                 Some e \<Rightarrow> status e = Pending \<and> now < expiresAt e | None \<Rightarrow> False)
               (keysForSession ?es s))"
    by (simp add: approve_def Let_def approve_fold_count [OF dk])
  also have "\<dots> = length (filter (\<lambda>k. ?R k (map_of ?es k)) (map fst ?es))"
    by (simp add: keysForSession_def conj_commute)
  also have "\<dots> = length (filter (\<lambda>(k, e). ?R k (Some e)) ?es)"
    by (simp only: filter_keys_map_of [OF d1, of ?R] length_map)
  finally show ?thesis by simp
qed

lemma deny_count:
  assumes d: "distinct (map fst (entries q))"
  shows "fst (deny now s q) =
     length (filter (\<lambda>(k, e). prefix (s @ ''::'') k \<and> status e = Pending)
               (entries (maybeCleanup now q)))"
proof -
  let ?es = "entries (maybeCleanup now q)"
  let ?R = "\<lambda>k v. prefix (s @ ''::'') k \<and>
              (case v of Some e \<Rightarrow> status e = Pending | None \<Rightarrow> False)"
  have d1: "distinct (map fst ?es)" using d by (rule maybeCleanup_distinct)
  then have dk: "distinct (keysForSession ?es s)" by (simp add: keysForSession_def)
  have "fst (deny now s q) =
      length (filter (\<lambda>k. case map_of ?es k of
                 Some e \<Rightarrow> status e = Pending | None \<Rightarrow> False)
               (keysForSession ?es s))"
    by (simp add: deny_def Let_def deny_fold_count [OF dk])
  also have "\<dots> = length (filter (\<lambda>k. ?R k (map_of ?es k)) (map fst ?es))"
    by (simp add: keysForSession_def conj_commute)
  also have "\<dots> = length (filter (\<lambda>(k, e). ?R k (Some e)) ?es)"
    by (simp only: filter_keys_map_of [OF d1, of ?R] length_map)
  finally show ?thesis by simp
qed

lemma approve_no_pending:
  assumes d: "distinct (map fst (entries q))" and np: "\<not> hasPending now s q"
  shows "approve now s q = (0, maybeCleanup now q)"
proof -
  let ?q1 = "maybeCleanup now q"
  have "\<forall>k\<in>set (keysForSession (entries ?q1) s). \<forall>e. map_of (entries ?q1) k = Some e \<longrightarrow>
          \<not> (status e = Pending \<and> now < expiresAt e)"
  proof (intro ballI allI impI)
    fix k e
    assume k: "k \<in> set (keysForSession (entries ?q1) s)"
      and m: "map_of (entries ?q1) k = Some e"
    from d m have m0: "map_of (entries q) k = Some e" by (rule maybeCleanup_sub)
    then have "k \<in> fst ` set (entries q)" by (auto dest: map_of_SomeD intro: rev_image_eqI)
    with k have "k \<in> set (keysForSession (entries q) s)" by (simp add: keysForSession_def)
    with np m0 show "\<not> (status e = Pending \<and> now < expiresAt e)"
      by (auto simp: hasPending_def list_ex_iff)
  qed
  then have "fold (approve_step now (ttl ?q1)) (keysForSession (entries ?q1) s) (entries ?q1, 0)
      = (entries ?q1, 0)"
    by (intro approve_fold_noop) simp
  then show ?thesis by (simp add: approve_def Let_def)
qed

lemma judgeChannel_fst:
  "fst (judgeChannel now sk mo me q) \<longleftrightarrow>
     fst (consume now sk mo me q) \<or> fst (consumePending now sk mo me q)"
  by (simp add: judgeChannel_def Let_def consume_False)

subsection \<open>The example states\<close>

lemmas builtins_defs = ecma_builtins_def ecma_objectProto_def ecma_getv_def
  objectPrototypeMethods_def objectStatics_def functionLength_def

lemmas ex_defs = queue_of_def entry_of_def approvalQueue_def new_ApprovalQueue_def
  DEFAULT_TTL_MS_def CLEANUP_INTERVAL_MS_def CONSUME_MAX_AGE_MS_def key_def daemon_env_def

lemmas op_defs = request_def consume_def consumePending_def approve_def deny_def
  approve_step_def deny_step_def keysForSession_def maybeCleanup_def cleanup_def
  allowFor_def hasBlanketAllow_def hasPending_def Let_def

lemma ex_requested_eq:
  "ex_requested = queue_of [(''s::Shell.bash'', entry_of ''s'' ''Shell'' ''bash'' Pending 1000 121000)] 0"
  by (simp add: ex_requested_def request_def approvalQueue_def new_ApprovalQueue_def Let_def
      maybeCleanup_def CLEANUP_INTERVAL_MS_def key_def DEFAULT_TTL_MS_def queue_of_def
      entry_of_def)

lemma ex_approved_eq:
  "ex_approved = queue_of [(''s::Shell.bash'', entry_of ''s'' ''Shell'' ''bash'' Approved 1000 122000)] 0"
  by (simp add: ex_approved_def ex_requested_eq approve_def Let_def approve_step_def
      keysForSession_def maybeCleanup_def CLEANUP_INTERVAL_MS_def DEFAULT_TTL_MS_def queue_of_def
      entry_of_def)

lemma ex_consumed_eq: "ex_consumed = queue_of [] 0"
  by (simp add: ex_consumed_def ex_approved_eq consume_def Let_def ex_defs)

lemma ex_other_eq:
  "ex_other = queue_of [(''t::Shell.bash'', entry_of ''t'' ''Shell'' ''bash'' Pending 1000 121000)] 0"
  by (simp add: ex_other_def op_defs ex_defs)

lemma ex_collide_eq:
  "ex_collide
     = queue_of [(''a::b::Shell.bash'', entry_of ''a::b'' ''Shell'' ''bash'' Pending 1000 121000)] 0"
  by (simp add: ex_collide_def op_defs ex_defs)

lemma ex_allowed_eq:
  "ex_allowed = \<lparr>entries = [], blanketAllows = [(''s::Network.fetch'', 901000)],
                   lastCleanup = 0, ttl = 120000\<rparr>"
  by (simp add: ex_allowed_def op_defs ex_defs)

lemma ex_blocked_eq:
  "ex_blocked
     = queue_of [(''s::Network.fetch'', entry_of ''s'' ''Network'' ''fetch'' Pending 1000 121000)] 0"
  by (simp add: ex_blocked_def judge_def judgeChannel_def op_defs ex_defs)

lemma ex_allow_reply_eq:
  "ex_allow_reply
     = \<lparr>entries = [(''s::Network.fetch'',
                      entry_of ''s'' ''Network'' ''fetch'' Approved 1000 122000)],
        blanketAllows = [(''s::Network.fetch'', 902000)], lastCleanup = 0, ttl = 120000\<rparr>"
  by (simp add: ex_allow_reply_def ex_blocked_eq handleRespondTool_def getPendingActions_def
      List.map_filter_simps BLANKET_DURATION_MS_def op_defs ex_defs)

lemma ex_retried_eq:
  "ex_retried
     = \<lparr>entries = [], blanketAllows = [(''s::Network.fetch'', 902000)],
        lastCleanup = 0, ttl = 120000\<rparr>"
  by (simp add: ex_retried_def ex_allow_reply_eq judge_def judgeChannel_def op_defs ex_defs)

subsection \<open>Channel-mode arbitration\<close>

text \<open>
  Claim C1. In Channel mode (no interactive terminal, a non-empty session key) the
  Arbitrator tries \<open>consume\<close> first; if that returns false it tries \<open>consumePending\<close>;
  only if both return false does it call \<open>request\<close> and answer ``not approved'', and
  then a pending entry is armed under the composite key. An approval through either
  path removes the entry of the key and creates no entry: the queue afterwards is the
  queue before with that key deleted.
\<close>

theorem C1_judge_channel_order:
  assumes tty: "\<not> isTTY env" and sk: "sk \<noteq> []"
  shows "judge env now (Some sk) mo me q =
           (if fst (consume now sk mo me q) then (True, snd (consume now sk mo me q))
            else if fst (consumePending now sk mo me q)
              then (True, snd (consumePending now sk mo me q))
            else (False, snd (request now sk mo me q)))
       \<and> (fst (judge env now (Some sk) mo me q) \<longrightarrow>
            snd (judge env now (Some sk) mo me q)
              = q\<lparr>entries := AList.delete (key sk mo me) (entries q)\<rparr>
            \<and> set (entries (snd (judge env now (Some sk) mo me q))) \<subseteq> set (entries q))
       \<and> (\<not> fst (judge env now (Some sk) mo me q) \<longrightarrow>
            (\<exists>e. map_of (entries (snd (judge env now (Some sk) mo me q))) (key sk mo me) = Some e
                 \<and> status e = Pending))"
proof -
  have j: "judge env now (Some sk) mo me q =
           (if fst (consume now sk mo me q) then (True, snd (consume now sk mo me q))
            else if fst (consumePending now sk mo me q)
              then (True, snd (consumePending now sk mo me q))
            else (False, snd (request now sk mo me q)))"
    using tty sk by (simp add: judge_def judgeChannel_def Let_def consume_False consumePending_False)
  have sub: "set (AList.delete (key sk mo me) (entries q)) \<subseteq> set (entries q)"
    by (auto simp: AList.delete_eq)
  show ?thesis
    unfolding j using request_armed [of now sk mo me q] sub
    by (auto simp: consume_True consumePending_True)
qed

text \<open>
  C1 at concrete inputs: a first encounter is refused and arms the wait; a retry one
  second later is approved through \<open>consumePending\<close>; after an explicit approval the
  retry is approved through \<open>consume\<close>.
\<close>

theorem C1_judge_channel_order_witness:
  "\<not> isTTY daemon_env \<and> ''s'' \<noteq> []
   \<and> judge daemon_env 1000 (Some ''s'') ''Shell'' ''bash'' (approvalQueue 0) = (False, ex_requested)
   \<and> judge daemon_env 2000 (Some ''s'') ''Shell'' ''bash'' ex_requested = (True, queue_of [] 0)
   \<and> judge daemon_env 3000 (Some ''s'') ''Shell'' ''bash'' ex_approved = (True, queue_of [] 0)"
proof -
  have h: "\<not> isTTY daemon_env" "''s'' \<noteq> []"
    by (simp_all add: daemon_env_def)
  show ?thesis
    using h C1_judge_channel_order [OF h, where q = "approvalQueue 0" and now = 1000
        and mo = "''Shell''" and me = "''bash''"]
      C1_judge_channel_order [OF h, where q = ex_requested and now = 2000
        and mo = "''Shell''" and me = "''bash''"]
      C1_judge_channel_order [OF h, where q = ex_approved and now = 3000
        and mo = "''Shell''" and me = "''bash''"]
    by (simp add: ex_approved_eq ex_requested_eq consume_def consumePending_def request_def
        maybeCleanup_def Let_def ex_defs)
qed

subsection \<open>Retry-as-approval\<close>

text \<open>
  Claim C2. With \<open>k\<close> the composite key: a pending, unexpired entry of age at most
  60000 ms is deleted by \<open>consumePending\<close>, which returns true; a pending, unexpired
  entry older than that makes it return false with the queue unchanged, and a
  \<open>request\<close> that follows installs a fresh entry with \<open>createdAt = now\<close>; a missing
  or expired key makes it return false with the queue unchanged. In all, it returns
  true exactly for a pending, unexpired entry inside the window, and whenever it
  returns false the queue is unchanged.
\<close>

theorem C2_consumePending_freshness:
  assumes k: "k = key sk mo me"
  shows "(\<forall>e. map_of (entries q) k = Some e \<and> status e = Pending \<and> now < expiresAt e \<and>
              now - createdAt e \<le> 60000 \<longrightarrow>
            consumePending now sk mo me q = (True, q\<lparr>entries := AList.delete k (entries q)\<rparr>)
            \<and> map_of (entries (snd (consumePending now sk mo me q))) k = None)
       \<and> (\<forall>e. map_of (entries q) k = Some e \<and> status e = Pending \<and> now < expiresAt e \<and>
              now - createdAt e > 60000 \<longrightarrow>
            consumePending now sk mo me q = (False, q)
            \<and> map_of (entries (snd (request now sk mo me q))) k =
                Some \<lparr>sessionKey = sk, moduleName = mo, methodName = me, status = Pending,
                      createdAt = now, expiresAt = now + ttl q\<rparr>)
       \<and> (map_of (entries q) k = None \<or>
            (\<exists>e. map_of (entries q) k = Some e \<and> expiresAt e \<le> now) \<longrightarrow>
            consumePending now sk mo me q = (False, q))
       \<and> (fst (consumePending now sk mo me q) \<longleftrightarrow>
            (\<exists>e. map_of (entries q) k = Some e \<and> status e = Pending \<and> now < expiresAt e \<and>
                 now - createdAt e \<le> 60000))
       \<and> (\<not> fst (consumePending now sk mo me q) \<longrightarrow> snd (consumePending now sk mo me q) = q)"
proof -
  have a: "consumePending now sk mo me q = (True, q\<lparr>entries := AList.delete k (entries q)\<rparr>)
            \<and> map_of (entries (snd (consumePending now sk mo me q))) k = None"
    if "map_of (entries q) k = Some e" "status e = Pending" "now < expiresAt e"
       "now - createdAt e \<le> 60000" for e
    using that
    by (simp add: consumePending_def Let_def k [symmetric] CONSUME_MAX_AGE_MS_def
        AList.delete_conv')
  have b: "consumePending now sk mo me q = (False, q)
            \<and> map_of (entries (snd (request now sk mo me q))) k =
                Some \<lparr>sessionKey = sk, moduleName = mo, methodName = me, status = Pending,
                      createdAt = now, expiresAt = now + ttl q\<rparr>"
    if e: "map_of (entries q) k = Some e" "status e = Pending" "now < expiresAt e"
       "now - createdAt e > 60000" for e
  proof -
    have "map_of (entries (maybeCleanup now q)) (key sk mo me) = Some e"
      using e(1,3) unfolding k by (rule maybeCleanup_live)
    then have "map_of (entries (snd (request now sk mo me q))) (key sk mo me) =
        Some \<lparr>sessionKey = sk, moduleName = mo, methodName = me, status = Pending,
              createdAt = now, expiresAt = now + ttl q\<rparr>"
      using e(4) by (intro request_fresh) (simp add: CONSUME_MAX_AGE_MS_def)
    then show ?thesis
      using e by (simp add: consumePending_def Let_def k [symmetric] CONSUME_MAX_AGE_MS_def)
  qed
  have c: "consumePending now sk mo me q = (False, q)"
    if "map_of (entries q) k = None \<or> (\<exists>e. map_of (entries q) k = Some e \<and> expiresAt e \<le> now)"
    using that by (auto simp: consumePending_def Let_def k [symmetric])
  have i: "fst (consumePending now sk mo me q) \<longleftrightarrow>
            (\<exists>e. map_of (entries q) k = Some e \<and> status e = Pending \<and> now < expiresAt e \<and>
                 now - createdAt e \<le> 60000)"
    by (simp add: consumePending_iff k CONSUME_MAX_AGE_MS_def)
  have u: "\<not> fst (consumePending now sk mo me q) \<longrightarrow> snd (consumePending now sk mo me q) = q"
    by (simp add: consumePending_False)
  from a b c i u show ?thesis by blast
qed

text \<open>
  C2 at concrete inputs: an entry created at 1000 is consumed at age 59 s, refused at
  age 61 s (and then re-armed by \<open>request\<close>), refused once expired, and a missing key
  is refused.
\<close>

theorem C2_consumePending_freshness_witness:
  "consumePending 60000 ''s'' ''Shell'' ''bash'' ex_requested = (True, queue_of [] 0)
   \<and> consumePending 62000 ''s'' ''Shell'' ''bash'' ex_requested = (False, ex_requested)
   \<and> snd (request 62000 ''s'' ''Shell'' ''bash'' ex_requested)
       = queue_of [(''s::Shell.bash'', entry_of ''s'' ''Shell'' ''bash'' Pending 62000 182000)] 62000
   \<and> consumePending 121000 ''s'' ''Shell'' ''bash'' ex_requested = (False, ex_requested)
   \<and> consumePending 1000 ''s'' ''Shell'' ''bash'' (approvalQueue 0) = (False, approvalQueue 0)"
  using C2_consumePending_freshness [OF refl, where q = ex_requested and sk = "''s''"
      and mo = "''Shell''" and me = "''bash''" and now = 60000]
    C2_consumePending_freshness [OF refl, where q = ex_requested and sk = "''s''"
      and mo = "''Shell''" and me = "''bash''" and now = 62000]
    C2_consumePending_freshness [OF refl, where q = ex_requested and sk = "''s''"
      and mo = "''Shell''" and me = "''bash''" and now = 121000]
    C2_consumePending_freshness [OF refl, where q = "approvalQueue 0" and sk = "''s''"
      and mo = "''Shell''" and me = "''bash''" and now = 1000]
  by (simp add: ex_requested_eq consumePending_def request_def maybeCleanup_def cleanup_def
      Let_def ex_defs)

subsection \<open>Single-use approvals\<close>

text \<open>
  Claim C3. \<open>consume\<close> returns true exactly when an approved, unexpired entry is stored
  under the composite key; it then deletes the entry, and otherwise leaves the queue
  unchanged. After \<open>request\<close> alone \<open>consume\<close> returns false. After \<open>request\<close> and
  \<open>approve\<close> (the armed entry still unexpired at the approval instant \<open>t1\<close>, and
  \<open>consume\<close> called before \<open>t1 + ttl\<close>) the first \<open>consume\<close> returns true and a
  second one, at any time, returns false.
\<close>

theorem C3_consume_single_use:
  assumes q1: "q1 = snd (request t0 sk mo me q)"
    and q2: "q2 = snd (approve t1 sk q1)"
    and q3: "q3 = snd (consume t2 sk mo me q2)"
  shows "(fst (consume now sk mo me q) \<longleftrightarrow>
            (\<exists>e. map_of (entries q) (key sk mo me) = Some e \<and> status e = Approved \<and>
                 now < expiresAt e))
       \<and> (fst (consume now sk mo me q) \<longrightarrow>
            snd (consume now sk mo me q) = q\<lparr>entries := AList.delete (key sk mo me) (entries q)\<rparr>
            \<and> map_of (entries (snd (consume now sk mo me q))) (key sk mo me) = None)
       \<and> (\<not> fst (consume now sk mo me q) \<longrightarrow> snd (consume now sk mo me q) = q)
       \<and> \<not> fst (consume t2 sk mo me q1)
       \<and> ((\<forall>e. map_of (entries q1) (key sk mo me) = Some e \<longrightarrow> t1 < expiresAt e)
            \<and> t2 < t1 + ttl q
          \<longrightarrow> fst (consume t2 sk mo me q2) \<and> \<not> fst (consume t3 sk mo me q3))"
proof -
  let ?k = "key sk mo me"
  have a: "fst (consume now sk mo me q) \<longleftrightarrow>
            (\<exists>e. map_of (entries q) ?k = Some e \<and> status e = Approved \<and> now < expiresAt e)"
    by (rule consume_iff)
  have b: "fst (consume now sk mo me q) \<longrightarrow>
            snd (consume now sk mo me q) = q\<lparr>entries := AList.delete ?k (entries q)\<rparr>
            \<and> map_of (entries (snd (consume now sk mo me q))) ?k = None"
    by (auto simp: consume_True AList.delete_conv')
  have c: "\<not> fst (consume now sk mo me q) \<longrightarrow> snd (consume now sk mo me q) = q"
    by (simp add: consume_False)
  obtain e where e: "map_of (entries q1) ?k = Some e" "status e = Pending"
    using request_armed [of t0 sk mo me q] q1 by auto
  have d: "\<not> fst (consume t2 sk mo me q1)"
    using e by (simp add: consume_iff)
  have f: "fst (consume t2 sk mo me q2) \<and> \<not> fst (consume t3 sk mo me q3)"
    if live: "\<forall>e. map_of (entries q1) ?k = Some e \<longrightarrow> t1 < expiresAt e"
      and t2: "t2 < t1 + ttl q"
  proof -
    from live e have le: "t1 < expiresAt e" by simp
    have ttl1: "ttl q1 = ttl q"
      by (simp add: q1 request_def Let_def split: option.splits)
    have "map_of (entries (maybeCleanup t1 q1)) ?k = Some e"
      using e(1) le by (rule maybeCleanup_live)
    then have m2: "map_of (entries q2) ?k
        = Some (e\<lparr>status := Approved, expiresAt := t1 + ttl q\<rparr>)"
      using e(2) le by (simp add: q2 approve_map_of key_prefix ttl1)
    then have first: "fst (consume t2 sk mo me q2)"
      using t2 by (simp add: consume_iff)
    then have "map_of (entries q3) ?k = None"
      by (simp add: q3 consume_True AList.delete_conv')
    then have "\<not> fst (consume t3 sk mo me q3)"
      by (simp add: consume_iff)
    with first show ?thesis by simp
  qed
  from a b c d f show ?thesis by blast
qed

text \<open>
  C3 at concrete inputs, on the singleton queue: request at 1000, approve at 2000,
  consume at 3000 and again at 4000.
\<close>

theorem C3_consume_single_use_witness:
  "\<not> fst (consume 3000 ''s'' ''Shell'' ''bash'' (approvalQueue 0))
   \<and> snd (consume 3000 ''s'' ''Shell'' ''bash'' (approvalQueue 0)) = approvalQueue 0
   \<and> \<not> fst (consume 3000 ''s'' ''Shell'' ''bash'' ex_requested)
   \<and> fst (consume 3000 ''s'' ''Shell'' ''bash'' ex_approved)
   \<and> map_of (entries ex_consumed) (key ''s'' ''Shell'' ''bash'') = None
   \<and> \<not> fst (consume 4000 ''s'' ''Shell'' ''bash'' ex_consumed)"
  using C3_consume_single_use [OF ex_requested_def ex_approved_def ex_consumed_def,
      where now = 3000 and ?t3.0 = 4000]
    C3_consume_single_use [OF refl refl refl, where q = ex_approved and sk = "''s''"
      and mo = "''Shell''" and me = "''bash''" and now = 3000]
  by (simp add: ex_consumed_eq ex_approved_eq ex_requested_eq consume_def Let_def ex_defs)

subsection \<open>Idempotent requests\<close>

text \<open>
  Claim C4, for a queue whose keys are distinct (as the keys of a \<^verbatim>\<open>Map\<close> are).
  \<open>request\<close> returns the composite key \<open>k\<close>. If a pending, unexpired entry of age at
  most 60000 ms is stored under \<open>k\<close>, the call leaves it as it is (the result is the
  queue after the housekeeping sweep, which keeps every unexpired entry); otherwise the
  entry under \<open>k\<close> afterwards is a fresh pending entry with \<open>createdAt = now\<close> and
  \<open>expiresAt = now + ttl\<close>. After one call and after two calls exactly one entry is
  stored under \<open>k\<close>. The default \<open>ttl\<close> is 120000 ms.
\<close>

theorem C4_request_idempotent:
  assumes k: "k = key sk mo me"
    and q': "q' = snd (request now sk mo me q)"
    and q'': "q'' = snd (request now2 sk mo me q')"
    and d: "distinct (map fst (entries q))"
  shows "fst (request now sk mo me q) = k
       \<and> (\<forall>e. map_of (entries q) k = Some e \<and> status e = Pending \<and> now < expiresAt e \<and>
              now - createdAt e \<le> 60000 \<longrightarrow>
            q' = maybeCleanup now q \<and> map_of (entries q') k = Some e)
       \<and> (\<not> (\<exists>e. map_of (entries q) k = Some e \<and> status e = Pending \<and> now < expiresAt e \<and>
                now - createdAt e \<le> 60000) \<longrightarrow>
            map_of (entries q') k =
              Some \<lparr>sessionKey = sk, moduleName = mo, methodName = me, status = Pending,
                    createdAt = now, expiresAt = now + ttl q\<rparr>)
       \<and> length (filter (\<lambda>p. fst p = k) (entries q')) = 1
       \<and> length (filter (\<lambda>p. fst p = k) (entries q'')) = 1
       \<and> ttl (new_ApprovalQueue None t) = 120000"
proof -
  have a: "q' = maybeCleanup now q \<and> map_of (entries q') k = Some e"
    if e: "map_of (entries q) k = Some e" "status e = Pending" "now < expiresAt e"
       "now - createdAt e \<le> 60000" for e
  proof -
    have m: "map_of (entries (maybeCleanup now q)) (key sk mo me) = Some e"
      using e(1,3) unfolding k by (rule maybeCleanup_live)
    then have "q' = maybeCleanup now q"
      unfolding q' using e(2,3,4) by (intro request_kept) (simp_all add: CONSUME_MAX_AGE_MS_def)
    with m show ?thesis by (simp add: k)
  qed
  have b: "map_of (entries q') k =
              Some \<lparr>sessionKey = sk, moduleName = mo, methodName = me, status = Pending,
                    createdAt = now, expiresAt = now + ttl q\<rparr>"
    if n: "\<not> (\<exists>e. map_of (entries q) k = Some e \<and> status e = Pending \<and> now < expiresAt e \<and>
                now - createdAt e \<le> 60000)"
  proof -
    have "\<not> (\<exists>e. map_of (entries (maybeCleanup now q)) (key sk mo me) = Some e \<and>
               status e = Pending \<and> now < expiresAt e \<and> now - createdAt e \<le> CONSUME_MAX_AGE_MS)"
      using n maybeCleanup_sub [OF d, of now "key sk mo me"]
      by (auto simp: k CONSUME_MAX_AGE_MS_def)
    then show ?thesis unfolding q' k by (rule request_fresh)
  qed
  have d': "distinct (map fst (entries q'))"
    unfolding q' using d by (rule request_distinct)
  then have d'': "distinct (map fst (entries q''))"
    unfolding q'' by (rule request_distinct)
  obtain e1 where "map_of (entries q') k = Some e1"
    using request_armed [of now sk mo me q] by (auto simp: q' k)
  with d' have c1: "length (filter (\<lambda>p. fst p = k) (entries q')) = 1"
    by (rule distinct_key_once)
  obtain e2 where "map_of (entries q'') k = Some e2"
    using request_armed [of now2 sk mo me q'] by (auto simp: q'' k)
  with d'' have c2: "length (filter (\<lambda>p. fst p = k) (entries q'')) = 1"
    by (rule distinct_key_once)
  have t: "ttl (new_ApprovalQueue None t) = 120000"
    by (simp add: new_ApprovalQueue_def DEFAULT_TTL_MS_def)
  have f: "fst (request now sk mo me q) = k"
    by (simp add: request_fst k)
  from f a b c1 c2 t show ?thesis by blast
qed

text \<open>
  C4 at concrete inputs: the first request on the singleton installs the entry, a
  second request one second later changes nothing.
\<close>

theorem C4_request_idempotent_witness:
  "distinct (map fst (entries (approvalQueue 0)))
   \<and> fst (request 1000 ''s'' ''Shell'' ''bash'' (approvalQueue 0)) = ''s::Shell.bash''
   \<and> ex_requested
       = queue_of [(''s::Shell.bash'', entry_of ''s'' ''Shell'' ''bash'' Pending 1000 121000)] 0
   \<and> snd (request 2000 ''s'' ''Shell'' ''bash'' ex_requested) = ex_requested
   \<and> length (filter (\<lambda>p. fst p = ''s::Shell.bash'')
               (entries (snd (request 2000 ''s'' ''Shell'' ''bash'' ex_requested)))) = 1"
proof -
  have d: "distinct (map fst (entries (approvalQueue 0)))"
    by (simp add: ex_defs)
  have d2: "distinct (map fst (entries ex_requested))"
    by (simp add: ex_requested_eq ex_defs)
  show ?thesis
    using d C4_request_idempotent [OF refl ex_requested_def refl d, where ?now2.0 = 2000]
      C4_request_idempotent [OF refl refl refl d2, where sk = "''s''"
        and mo = "''Shell''" and me = "''bash''" and now = 2000 and ?now2.0 = 2000]
    by (simp add: ex_requested_eq request_def maybeCleanup_def Let_def ex_defs)
qed

subsection \<open>Session-wide approval\<close>

text \<open>
  The sweep that \<open>request\<close>, \<open>approve\<close> and \<open>deny\<close> run first: when more than
  30000 ms have passed since the last one it removes every expired entry and every
  expired blanket allow, of any session, and records the instant; otherwise it does
  nothing.
\<close>

lemma maybeCleanup_eq:
  "maybeCleanup now q =
     (if now - lastCleanup q > 30000
      then q\<lparr>entries := filter (\<lambda>(k, e). now < expiresAt e) (entries q),
             blanketAllows := filter (\<lambda>(k, x). now < x) (blanketAllows q),
             lastCleanup := now\<rparr>
      else q)"
  by (simp add: maybeCleanup_def cleanup_def CLEANUP_INTERVAL_MS_def not_le)

lemma maybeCleanup_map_of:
  "distinct (map fst (entries q)) \<Longrightarrow>
   map_of (entries (maybeCleanup now q)) k =
     (if now - lastCleanup q > 30000
      then (case map_of (entries q) k of
              None \<Rightarrow> None | Some e \<Rightarrow> if now < expiresAt e then Some e else None)
      else map_of (entries q) k)"
  by (auto simp: maybeCleanup_eq map_of_filter_distinct split: option.splits)

text \<open>
  What \<open>approve\<close> does on a well-formed queue, with \<open>q1\<close> the queue after the sweep:
  the pending, unexpired entries of the session become approved with
  \<open>expiresAt = now + ttl\<close>; the keys stay as they are; the number returned is the
  number of entries changed, and it is 0 with the swept queue as result when
  \<open>hasPending\<close> is false. The entries it can change are those under the keys that
  \<open>keysForSession\<close> selects.
\<close>

lemma approve_after_sweep:
  assumes wf: "wf_queue q"
    and q1: "q1 = maybeCleanup now q"
    and q': "q' = snd (approve now s q)"
  shows "(\<forall>k e. map_of (entries q) k = Some e \<and> sessionKey e = s \<and> status e = Pending \<and>
                now < expiresAt e \<longrightarrow>
            map_of (entries q') k = Some (e\<lparr>status := Approved, expiresAt := now + ttl q\<rparr>))
       \<and> (\<forall>k e. map_of (entries q1) k = Some e \<and>
                (status e \<noteq> Pending \<or> expiresAt e \<le> now \<or> \<not> prefix (s @ ''::'') k) \<longrightarrow>
            map_of (entries q') k = Some e)
       \<and> map fst (entries q') = map fst (entries q1)
       \<and> fst (approve now s q)
            = length (filter (\<lambda>(k, e). map_of (entries q') k \<noteq> Some e) (entries q1))
       \<and> (\<not> hasPending now s q \<longrightarrow> approve now s q = (0, q1))
       \<and> (\<not> hasPending now s q \<and> now - lastCleanup q \<le> 30000 \<longrightarrow> approve now s q = (0, q))"
proof -
  have d: "distinct (map fst (entries q))" using wf by (rule wf_queue_distinct)
  have d1: "distinct (map fst (entries q1))" unfolding q1 using d by (rule maybeCleanup_distinct)
  have a: "map_of (entries q') k = Some (e\<lparr>status := Approved, expiresAt := now + ttl q\<rparr>)"
    if e: "map_of (entries q) k = Some e" "sessionKey e = s" "status e = Pending"
       "now < expiresAt e" for k e
  proof -
    have "k = key s (moduleName e) (methodName e)"
      using wf_queue_keyed [OF wf e(1)] e(2) by simp
    then have p: "prefix (s @ ''::'') k" by (simp add: key_prefix)
    have "map_of (entries (maybeCleanup now q)) k = Some e"
      using e(1,4) by (rule maybeCleanup_live)
    then show ?thesis using p e(3,4) by (simp add: q' approve_map_of)
  qed
  have b: "map_of (entries q') k = Some e"
    if "map_of (entries q1) k = Some e"
       "status e \<noteq> Pending \<or> expiresAt e \<le> now \<or> \<not> prefix (s @ ''::'') k" for k e
    using that by (auto simp: q' q1 approve_map_of)
  have c: "map fst (entries q') = map fst (entries q1)"
    by (simp add: q' q1 approve_def Let_def approve_fold_keys)
  have "filter (\<lambda>(k, e). map_of (entries q') k \<noteq> Some e) (entries q1)
      = filter (\<lambda>(k, e). prefix (s @ ''::'') k \<and> status e = Pending \<and> now < expiresAt e)
          (entries q1)"
  proof (rule filter_cong [OF refl])
    fix x assume x: "x \<in> set (entries q1)"
    obtain k e where ke: "x = (k, e)" by (cases x)
    with x d1 have "map_of (entries q1) k = Some e" by simp
    then show "(case x of (k, e) \<Rightarrow> map_of (entries q') k \<noteq> Some e)
        = (case x of (k, e) \<Rightarrow> prefix (s @ ''::'') k \<and> status e = Pending \<and> now < expiresAt e)"
      using approved_neq [of e "now + ttl q"]
      by (auto simp: ke q' q1 approve_map_of)
  qed
  then have n: "fst (approve now s q)
      = length (filter (\<lambda>(k, e). map_of (entries q') k \<noteq> Some e) (entries q1))"
    by (simp add: approve_count [OF d] q1)
  have z: "approve now s q = (0, q1)" if "\<not> hasPending now s q"
    unfolding q1 using d that by (rule approve_no_pending)
  have z': "approve now s q = (0, q)"
    if "\<not> hasPending now s q \<and> now - lastCleanup q \<le> 30000"
    using that approve_no_pending [OF d, of now s]
    by (simp add: maybeCleanup_not_due CLEANUP_INTERVAL_MS_def)
  from a b c n z z' show ?thesis by blast
qed

text \<open>The sweep at work: session \<^verbatim>\<open>s\<close> has no entry, the expired entry of \<^verbatim>\<open>t\<close> goes.\<close>

lemma approve_runs_sweep:
  "\<not> hasPending 200000 ''s'' ex_other
   \<and> fst (approve 200000 ''s'' ex_other) = 0
   \<and> snd (approve 200000 ''s'' ex_other) \<noteq> ex_other
   \<and> entries ex_other \<noteq> []
   \<and> entries (snd (approve 200000 ''s'' ex_other)) = []"
  by (simp add: ex_other_eq op_defs ex_defs)

text \<open>
  Claim C5 says that \<open>approve\<close> transitions the pending entries of that session and no
  other entry, returns the number so transitioned, and returns 0 and changes nothing
  when the session has no pending entry. The code evaluated at a concrete input: the
  queue holds one pending, unexpired entry, of session \<^verbatim>\<open>a::b\<close>; session \<^verbatim>\<open>a\<close> owns no
  entry; no sweep is due at 2000. \<open>approve\<close> for session \<^verbatim>\<open>a\<close> returns 1 and approves
  the entry of session \<^verbatim>\<open>a::b\<close>: \<open>keysForSession\<close> takes every key that begins with
  \<^verbatim>\<open>a::\<close>, whatever the \<open>sessionKey\<close> of the entry.
\<close>

theorem C5_approve_reaches_other_session:
  "filter (\<lambda>(k, e). sessionKey e = ''a'') (entries ex_collide) = []
   \<and> entries ex_collide
       = [(''a::b::Shell.bash'', entry_of ''a::b'' ''Shell'' ''bash'' Pending 1000 121000)]
   \<and> maybeCleanup 2000 ex_collide = ex_collide
   \<and> keysForSession (entries ex_collide) ''a'' = [''a::b::Shell.bash'']
   \<and> approve 2000 ''a'' ex_collide
       = (1, queue_of [(''a::b::Shell.bash'',
                        entry_of ''a::b'' ''Shell'' ''bash'' Approved 1000 122000)] 0)"
  by (simp add: ex_collide_eq op_defs ex_defs)

subsection \<open>Headless mode\<close>

text \<open>
  Claim C6. In Headless mode (no interactive terminal, session key absent or empty)
  the judgment of an ASK-ruled operation is ``not approved'' and \<open>evaluate\<close> fails with
  the security-violation error; the queue returned is the queue given.
\<close>

theorem C6_headless_fail_secure:
  assumes rule: "lookupRule (builtins env) (policy ic) mo me = Inr (Rule r)"
    and ask: "action r = ASK"
    and tty: "\<not> isTTY env" and nosession: "\<not> truthy sko"
  shows "judge env now sko mo me q = (False, q)
       \<and> (\<exists>msg. evaluate ic env now mo me sko q = (Inl (SecurityViolation msg), q))"
proof -
  have j: "judge env now sko mo me q = (False, q)"
    using tty nosession by (auto simp: judge_def truthy_def split: option.splits)
  then show ?thesis
    using rule ask tty nosession by (simp add: evaluate_def executeDecision_def Let_def)
qed

text \<open>
  C6 at concrete inputs: an unknown tool under the default policy, without a session
  key and with an empty one.
\<close>

theorem C6_headless_fail_secure_witness:
  "lookupRule (builtins daemon_env) DEFAULT_POLICY ''Unknown'' ''x''
       = Inr (Rule \<lparr>action = ASK,
                     description = Some ''No specific rule defined for Unknown.x''\<rparr>)
   \<and> \<not> isTTY daemon_env \<and> \<not> truthy None \<and> \<not> truthy (Some [])
   \<and> evaluate \<lparr>policy = DEFAULT_POLICY, respondToolAvailable = False\<rparr> daemon_env 5000
        ''Unknown'' ''x'' None ex_requested
       = (Inl (SecurityViolation
           ''ClawBands Security Violation: Unknown.x() was DENIED. No specific rule defined for Unknown.x''),
          ex_requested)
   \<and> snd (evaluate \<lparr>policy = DEFAULT_POLICY, respondToolAvailable = False\<rparr> daemon_env 5000
        ''Shell'' ''bash'' (Some []) ex_requested) = ex_requested"
proof -
  let ?ic = "\<lparr>policy = DEFAULT_POLICY, respondToolAvailable = False\<rparr>"
  let ?r1 = "\<lparr>action = ASK, description = Some ''No specific rule defined for Unknown.x''\<rparr>"
  let ?r2 = "\<lparr>action = ASK, description = Some ''Shell command execution risk''\<rparr>"
  have a1: "lookupRule (builtins daemon_env) (policy ?ic) ''Unknown'' ''x'' = Inr (Rule ?r1)"
    by (simp add: lookupRule_def DEFAULT_POLICY_def daemon_env_def builtins_defs)
  have a2: "lookupRule (builtins daemon_env) (policy ?ic) ''Shell'' ''bash'' = Inr (Rule ?r2)"
    by (simp add: lookupRule_def DEFAULT_POLICY_def)
  have k1: "action ?r1 = ASK" and k2: "action ?r2 = ASK" by simp_all
  have t: "\<not> isTTY daemon_env" by (simp add: daemon_env_def)
  have n1: "\<not> truthy None" and n2: "\<not> truthy (Some [])" by (simp_all add: truthy_def)
  have e1: "evaluate ?ic daemon_env 5000 ''Unknown'' ''x'' None ex_requested
       = (Inl (SecurityViolation
           ''ClawBands Security Violation: Unknown.x() was DENIED. No specific rule defined for Unknown.x''),
          ex_requested)"
  proof -
    from C6_headless_fail_secure [OF a1 k1 t n1, of 5000 ex_requested]
    have "judge daemon_env 5000 None ''Unknown'' ''x'' ex_requested = (False, ex_requested)"
      by blast
    then show ?thesis
      using t n1 a1 by (simp add: evaluate_def executeDecision_def Let_def)
  qed
  have e2: "snd (evaluate ?ic daemon_env 5000 ''Shell'' ''bash'' (Some []) ex_requested)
       = ex_requested"
    using C6_headless_fail_secure [OF a2 k2 t n2, of 5000 ex_requested] by auto
  from a1 t n1 n2 e1 e2 show ?thesis by simp
qed

subsection \<open>Blanket allows\<close>

text \<open>
  What the blanket-allow table does on its own: the allow installed by \<open>allowFor\<close> is
  reported until \<open>now + durationMs\<close> and not after; the judgment does not depend on
  the table.
\<close>

lemma hasBlanketAllow_allowFor:
  "fst (hasBlanketAllow t sk mo me (allowFor now sk mo me d q)) \<longleftrightarrow> now + d \<noteq> 0 \<and> t < now + d"
  by (simp add: hasBlanketAllow_def allowFor_def Let_def AList.update_conv')

lemma judge_ignores_blanketAllows:
  "fst (judge env now sko mo me (q\<lparr>blanketAllows := b\<rparr>)) = fst (judge env now sko mo me q)"
  by (simp add: judge_def judgeChannel_fst consume_iff consumePending_iff split: option.splits)

text \<open>
  Claim C7 says that after \<open>allowFor\<close> every arbitration of the same operation before
  the expiry is approved. The code evaluated at concrete inputs. In the ALLOW flow the
  reply at 2000 installs the blanket allow for 15 minutes and approves the pending
  entry; the retry at 3000 is approved by consuming that entry; the next call, at
  4000, is judged ``not approved'' and \<open>evaluate\<close> fails with the approval-required
  error, although \<open>hasBlanketAllow\<close> is true at that instant. The same happens when
  \<open>allowFor\<close> is called on the empty queue. Neither \<open>judge\<close> nor \<open>evaluate\<close> calls
  \<open>hasBlanketAllow\<close>.
\<close>

theorem C7_blanket_allow_not_consulted:
  "fst (handleRespondTool 2000 ''allow'' (Some ''s'') ex_blocked)
       = ApprovedFor15Minutes [(''Network'', ''fetch'')]
   \<and> fst (judge daemon_env 3000 (Some ''s'') ''Network'' ''fetch'' ex_allow_reply)
   \<and> fst (hasBlanketAllow 4000 ''s'' ''Network'' ''fetch'' ex_retried)
   \<and> \<not> fst (judge daemon_env 4000 (Some ''s'') ''Network'' ''fetch'' ex_retried)
   \<and> fst (evaluate \<lparr>policy = DEFAULT_POLICY, respondToolAvailable = True\<rparr> daemon_env 4000
             ''Network'' ''fetch'' (Some ''s'') ex_retried)
       = Inl (ApprovalRequired ''Network'' ''fetch'' ''Potential data exfiltration'' True)
   \<and> fst (hasBlanketAllow 2000 ''s'' ''Network'' ''fetch'' ex_allowed)
   \<and> \<not> fst (judge daemon_env 2000 (Some ''s'') ''Network'' ''fetch'' ex_allowed)"
  by (simp add: ex_retried_eq ex_allow_reply_eq ex_blocked_eq ex_allowed_eq
      handleRespondTool_def getPendingActions_def List.map_filter_simps BLANKET_DURATION_MS_def
      op_defs ex_defs judge_def judgeChannel_def evaluate_def
      executeDecision_def lookupRule_def DEFAULT_POLICY_def truthy_def)

subsection \<open>Rule lookup\<close>

text \<open>
  Claim C8, as amended, for every table of built-ins. \<open>lookupRule\<close> returns the exact
  rule of the module and method when the policy has one. When it has none and the name
  that is missing (the module, or the method within a module of the policy) is not a
  name that a plain object inherits, it returns the policy's \<open>defaultAction\<close> with the
  description \<^verbatim>\<open>No specific rule defined for module.method\<close>. In particular it returns
  a rule whenever neither name is inherited.
\<close>

theorem C8_lookupRule_total:
  "(\<forall>rs r. map_of (modules p) mo = Some rs \<and> map_of rs me = Some r \<longrightarrow>
        lookupRule bi p mo me = Inr (Rule r))
   \<and> ((map_of (modules p) mo = None \<and> objectProto bi mo = Absent) \<or>
       (\<exists>rs. map_of (modules p) mo = Some rs \<and> map_of rs me = None \<and>
            objectProto bi me = Absent) \<longrightarrow>
        lookupRule bi p mo me =
          Inr (Rule \<lparr>action = defaultAction p,
                 description = Some (''No specific rule defined for '' @ mo @ ''.'' @ me)\<rparr>))
   \<and> (objectProto bi mo = Absent \<and> objectProto bi me = Absent \<longrightarrow>
        (\<exists>r. lookupRule bi p mo me = Inr (Rule r)))"
  by (auto simp: lookupRule_def Let_def split: option.splits)

text \<open>
  C8 at concrete inputs under the default policy and the built-ins of the language:
  an exact rule, a known module with an unknown method, and an unknown module.
\<close>

theorem C8_lookupRule_total_witness:
  "objectProto ecma_builtins ''chmod'' = Absent
   \<and> objectProto ecma_builtins ''Unknown'' = Absent
   \<and> objectProto ecma_builtins ''x'' = Absent
   \<and> lookupRule ecma_builtins DEFAULT_POLICY ''FileSystem'' ''delete''
     = Inr (Rule \<lparr>action = DENY, description = Some ''Deletion is strictly prohibited''\<rparr>)
   \<and> lookupRule ecma_builtins DEFAULT_POLICY ''FileSystem'' ''chmod''
     = Inr (Rule \<lparr>action = ASK,
                   description = Some ''No specific rule defined for FileSystem.chmod''\<rparr>)
   \<and> lookupRule ecma_builtins DEFAULT_POLICY ''Unknown'' ''x''
     = Inr (Rule \<lparr>action = ASK, description = Some ''No specific rule defined for Unknown.x''\<rparr>)"
  using C8_lookupRule_total [of DEFAULT_POLICY "''FileSystem''" "''delete''" ecma_builtins]
    C8_lookupRule_total [of DEFAULT_POLICY "''FileSystem''" "''chmod''" ecma_builtins]
    C8_lookupRule_total [of DEFAULT_POLICY "''Unknown''" "''x''" ecma_builtins]
  by (simp add: DEFAULT_POLICY_def builtins_defs)

text \<open>
  Claim C8 as stated fails at two inputs. For an unknown tool the fallback description
  is \<^verbatim>\<open>No specific rule defined for Unknown.x\<close>, with the word \<^verbatim>\<open>defined\<close> in it. For
  the names \<^verbatim>\<open>constructor\<close> and \<^verbatim>\<open>name\<close>, which no policy lists, the lookup follows the
  prototype chain to the function \<^verbatim>\<open>Object\<close> and returns its name, the string
  \<^verbatim>\<open>Object\<close>, in place of a rule; \<open>evaluate\<close> then throws the unknown-decision error.
\<close>

theorem C8_lookup_counterexample:
  "map_of (modules DEFAULT_POLICY) ''Unknown'' = None
   \<and> lookupRule ecma_builtins DEFAULT_POLICY ''Unknown'' ''x''
     = Inr (Rule \<lparr>action = ASK, description = Some ''No specific rule defined for Unknown.x''\<rparr>)
   \<and> ''No specific rule defined for Unknown.x'' \<noteq> ''No specific rule for Unknown.x''
   \<and> map_of (modules DEFAULT_POLICY) ''constructor'' = None
   \<and> lookupRule ecma_builtins DEFAULT_POLICY ''constructor'' ''name''
     = Inr (NotARule (JsString ''Object''))
   \<and> evaluate \<lparr>policy = DEFAULT_POLICY, respondToolAvailable = False\<rparr> daemon_env 1000
        ''constructor'' ''name'' None (approvalQueue 0)
     = (Inl (UnknownDecisionType ''Unknown decision type: undefined''), approvalQueue 0)"
  by (simp add: lookupRule_def evaluate_def executeDecision_def DEFAULT_POLICY_def
      daemon_env_def builtins_defs)

subsection \<open>Independence of sessions\<close>

text \<open>
  An entry under a key that \<open>keysForSession\<close> does not select for \<open>s1\<close>, and that the
  sweep leaves, is neither changed nor counted by \<open>approve s1\<close> and \<open>deny s1\<close>. Session
  keys of equal length are never selected for one another.
\<close>

lemma other_session_untouched:
  assumes wf: "wf_queue q"
    and e: "map_of (entries q) k = Some e" and s2: "sessionKey e = s2"
    and np: "\<not> prefix (s1 @ ''::'') k"
    and live: "now < expiresAt e \<or> now - lastCleanup q \<le> CLEANUP_INTERVAL_MS"
  shows "s1 \<noteq> s2
       \<and> map_of (entries (snd (approve now s1 q))) k = Some e
       \<and> map_of (entries (snd (deny now s1 q))) k = Some e
       \<and> fst (approve now s1 (q\<lparr>entries := AList.delete k (entries q)\<rparr>)) = fst (approve now s1 q)
       \<and> fst (deny now s1 (q\<lparr>entries := AList.delete k (entries q)\<rparr>)) = fst (deny now s1 q)"
proof -
  have d: "distinct (map fst (entries q))" using wf by (rule wf_queue_distinct)
  let ?q0 = "q\<lparr>entries := AList.delete k (entries q)\<rparr>"
  have d0: "distinct (map fst (entries ?q0))" using d by (simp add: AList.distinct_delete)
  have "k = key s2 (moduleName e) (methodName e)"
    using wf_queue_keyed [OF wf e] s2 by simp
  then have "prefix (s2 @ ''::'') k" by (simp add: key_prefix)
  with np have ne: "s1 \<noteq> s2" by auto
  have m: "map_of (entries (maybeCleanup now q)) k = Some e"
    using e live by (rule maybeCleanup_keep)
  have a: "map_of (entries (snd (approve now s1 q))) k = Some e"
    using m np by (simp add: approve_map_of)
  have b: "map_of (entries (snd (deny now s1 q))) k = Some e"
    using m np by (simp add: deny_map_of)
  have c: "fst (approve now s1 ?q0) = fst (approve now s1 q)"
    unfolding approve_count [OF d0] approve_count [OF d] maybeCleanup_delete
    using np by (subst filter_delete_irrelevant) auto
  have c': "fst (deny now s1 ?q0) = fst (deny now s1 q)"
    unfolding deny_count [OF d0] deny_count [OF d] maybeCleanup_delete
    using np by (subst filter_delete_irrelevant) auto
  from ne a b c c' show ?thesis by simp
qed

lemma no_collision_same_length:
  "s1 \<noteq> s2 \<Longrightarrow> length s1 = length s2 \<Longrightarrow> \<not> prefix (s1 @ ''::'') (key s2 mo me)"
  by (auto simp: key_def prefix_def)

text \<open>The sweep at work: approving or denying \<^verbatim>\<open>s\<close> removes the expired entry of \<^verbatim>\<open>t\<close>.\<close>

lemma sweep_reaches_other_sessions:
  "''s'' \<noteq> ''t''
   \<and> map_of (entries ex_other) ''t::Shell.bash''
       = Some (entry_of ''t'' ''Shell'' ''bash'' Pending 1000 121000)
   \<and> sessionKey (entry_of ''t'' ''Shell'' ''bash'' Pending 1000 121000) = ''t''
   \<and> map_of (entries (snd (approve 200000 ''s'' ex_other))) ''t::Shell.bash'' = None
   \<and> map_of (entries (snd (deny 200000 ''s'' ex_other))) ''t::Shell.bash'' = None"
  by (simp add: ex_other_eq op_defs ex_defs)

text \<open>
  Claim C9 says that \<open>approve\<close> and \<open>deny\<close> for one session never affect, count or
  delete the entries of another session. The code evaluated at a concrete input:
  session \<^verbatim>\<open>a::b\<close> is blocked on \<^verbatim>\<open>Shell.bash\<close> at 1000, which arms its pending entry;
  at 2000 no sweep is due and the entry is unexpired. \<open>deny\<close> for the distinct session
  \<^verbatim>\<open>a\<close> deletes that entry and counts it; \<open>approve\<close> for \<^verbatim>\<open>a\<close> approves it and counts
  it; and after a YES reply in session \<^verbatim>\<open>a\<close> the retry of session \<^verbatim>\<open>a::b\<close> at 3000 is
  approved.
\<close>

theorem C9_sessions_not_independent:
  "''a'' \<noteq> ''a::b''
   \<and> judge daemon_env 1000 (Some ''a::b'') ''Shell'' ''bash'' (approvalQueue 0)
       = (False, ex_collide)
   \<and> map_of (entries ex_collide) (key ''a::b'' ''Shell'' ''bash'')
       = Some (entry_of ''a::b'' ''Shell'' ''bash'' Pending 1000 121000)
   \<and> sessionKey (entry_of ''a::b'' ''Shell'' ''bash'' Pending 1000 121000) = ''a::b''
   \<and> maybeCleanup 2000 ex_collide = ex_collide
   \<and> deny 2000 ''a'' ex_collide = (1, queue_of [] 0)
   \<and> fst (approve 2000 ''a'' ex_collide) = 1
   \<and> map_of (entries (snd (approve 2000 ''a'' ex_collide))) (key ''a::b'' ''Shell'' ''bash'')
       = Some (entry_of ''a::b'' ''Shell'' ''bash'' Approved 1000 122000)
   \<and> fst (handleRespondTool 2000 ''yes'' (Some ''a'') ex_collide) = ApprovedRetry
   \<and> fst (judge daemon_env 3000 (Some ''a::b'') ''Shell'' ''bash''
             (snd (handleRespondTool 2000 ''yes'' (Some ''a'') ex_collide)))"
  by (simp add: ex_collide_eq handleRespondTool_def judge_def judgeChannel_def op_defs ex_defs)

subsection \<open>Denial and granted approvals\<close>

text \<open>
  Claim C10, as amended. An approved entry that is unexpired (or met when no sweep is
  due) is left as it is by \<open>deny\<close>, for any session, and \<open>consume\<close> accepts it
  afterwards at every instant before its expiry. Every entry that \<open>deny\<close> removes or
  alters is pending or expired.
\<close>

theorem C10_deny_keeps_live_approvals:
  assumes e: "map_of (entries q) (key sk mo me) = Some e"
    and a: "status e = Approved"
    and live: "now < expiresAt e \<or> now - lastCleanup q \<le> CLEANUP_INTERVAL_MS"
  shows "map_of (entries (snd (deny now s q))) (key sk mo me) = Some e
       \<and> (\<forall>t. t < expiresAt e \<longrightarrow> fst (consume t sk mo me (snd (deny now s q))))
       \<and> (\<forall>k x. map_of (entries q) k = Some x \<and>
                 map_of (entries (snd (deny now s q))) k \<noteq> Some x \<longrightarrow>
               status x = Pending \<or> expiresAt x \<le> now)"
proof -
  have m: "map_of (entries (maybeCleanup now q)) (key sk mo me) = Some e"
    using e live by (rule maybeCleanup_keep)
  then have k: "map_of (entries (snd (deny now s q))) (key sk mo me) = Some e"
    using a by (simp add: deny_map_of)
  then have c: "\<forall>t. t < expiresAt e \<longrightarrow> fst (consume t sk mo me (snd (deny now s q)))"
    using a by (simp add: consume_iff)
  have r: "status x = Pending \<or> expiresAt x \<le> now"
    if x: "map_of (entries q) k = Some x"
      and ch: "map_of (entries (snd (deny now s q))) k \<noteq> Some x" for k x
  proof (rule ccontr)
    assume n: "\<not> (status x = Pending \<or> expiresAt x \<le> now)"
    then have "map_of (entries (maybeCleanup now q)) k = Some x"
      using x by (intro maybeCleanup_live) simp_all
    with n have "map_of (entries (snd (deny now s q))) k = Some x"
      by (simp add: deny_map_of)
    with ch show False by simp
  qed
  from k c r show ?thesis by blast
qed

text \<open>
  C10 at concrete inputs: the approved entry survives a \<open>deny\<close> of its own session
  and is consumed afterwards.
\<close>

theorem C10_deny_keeps_live_approvals_witness:
  "map_of (entries ex_approved) (key ''s'' ''Shell'' ''bash'')
       = Some (entry_of ''s'' ''Shell'' ''bash'' Approved 1000 122000)
   \<and> deny 3000 ''s'' ex_approved = (0, ex_approved)
   \<and> fst (consume 4000 ''s'' ''Shell'' ''bash'' (snd (deny 3000 ''s'' ex_approved)))"
proof -
  let ?e = "entry_of ''s'' ''Shell'' ''bash'' Approved 1000 122000"
  have e: "map_of (entries ex_approved) (key ''s'' ''Shell'' ''bash'') = Some ?e"
    by (simp add: ex_approved_eq ex_defs)
  have a: "status ?e = Approved" by (simp add: entry_of_def)
  have live: "3000 < expiresAt ?e \<or> 3000 - lastCleanup ex_approved \<le> CLEANUP_INTERVAL_MS"
    by (simp add: entry_of_def)
  have t: "(4000::int) < expiresAt ?e" by (simp add: entry_of_def)
  have d: "deny 3000 ''s'' ex_approved = (0, ex_approved)"
    by (simp add: ex_approved_eq op_defs ex_defs)
  from C10_deny_keeps_live_approvals [OF e a live, of "''s''"] t
  have "fst (consume 4000 ''s'' ''Shell'' ''bash'' (snd (deny 3000 ''s'' ex_approved)))"
    by blast
  with e d show ?thesis by simp
qed

text \<open>
  Claim C10 as stated says that \<open>deny\<close> removes only pending entries. Here the entry
  is approved and has expired; \<open>deny\<close> denies nothing (it returns 0) and the sweep it
  triggers removes the entry.
\<close>

theorem C10_deny_sweep_counterexample:
  "map_of (entries ex_approved) (key ''s'' ''Shell'' ''bash'')
       = Some (entry_of ''s'' ''Shell'' ''bash'' Approved 1000 122000)
   \<and> status (entry_of ''s'' ''Shell'' ''bash'' Approved 1000 122000) = Approved
   \<and> fst (deny 200000 ''s'' ex_approved) = 0
   \<and> map_of (entries (snd (deny 200000 ''s'' ex_approved))) (key ''s'' ''Shell'' ''bash'') = None"
  by (simp add: ex_approved_eq op_defs ex_defs)

end
